theory Spec2Isabelle
  imports Complex_Main "HOL-Library.Multiset"
begin

section \<open>Roundbuilder: the round simulation and scoring engine\<close>

text \<open>
  The engine lives in \<^verbatim>\<open>gameLogic\<close> (\<^verbatim>\<open>tempAt\<close>, \<^verbatim>\<open>dilutionAt\<close>,
  \<^verbatim>\<open>sortByFinishQueue\<close>, \<^verbatim>\<open>simulateFinish\<close>, \<^verbatim>\<open>scoreRound\<close>, \<^verbatim>\<open>orderPenalty\<close>) and in
  the free-choice \<^verbatim>\<open>App\<close> component (\<^verbatim>\<open>evaluateDrink\<close>, \<^verbatim>\<open>finishById\<close>).

  Numbers: a TypeScript \<^verbatim>\<open>number\<close> is modelled as a \<^typ>\<open>real\<close>, that is, as a finite
  value computed without rounding; \<^verbatim>\<open>NaN\<close> and the infinities are outside the model.
  Indices and counters that the source only ever uses as natural numbers are \<^typ>\<open>nat\<close>
  and are converted with \<^term>\<open>real\<close> where the source mixes them with other numbers.
  Where a property depends on the rounding of the program's arithmetic (the value of
  \<^verbatim>\<open>tempAt\<close> at wait 0), the rounding is written out: \<open>tempAtR\<close> and \<open>round64\<close> below.
\<close>

subsection \<open>Data model (\<^verbatim>\<open>types.ts\<close>)\<close>

datatype Category = STRAIGHT_UP | ON_THE_ROCKS | NON_CHILLED

datatype IceSurface = Large | Standard | Crushed

text \<open>
  Optional fields are options. For \<^verbatim>\<open>iceSurface\<close> both an absent field and
  \<^verbatim>\<open>null\<close> are \<^term>\<open>None\<close>: the source reads the field only through \<^verbatim>\<open>??\<close>, which
  treats the two alike.
\<close>

record Drink =
  drink_id :: string
  drink_name :: string
  category :: Category
  baseFinishSec :: real
  startTempC :: real
  idealDilution :: "real option"
  iceSurface :: "IceSurface option"

text \<open>
  The penalty labels are fixed (Russian) string literals of the source; each is
  represented by a constructor named after its meaning.
\<close>

datatype PenaltyLabel =
    WarmStraightUp      \<comment> \<open>straight-up drink served above 0 degrees\<close>
  | DilutionOffTarget   \<comment> \<open>dilution not on target\<close>
  | LostChill           \<comment> \<open>drink without ice lost its chill\<close>
  | LongWindow          \<comment> \<open>long window between first and last finish\<close>
  | BadCategoryOrder    \<comment> \<open>category order is not optimal\<close>

record Penalty =
  label :: PenaltyLabel
  pen_value :: real

record FinishedDrink =
  drink :: Drink
  finishedAt :: real
  waitSec :: real
  tempC :: real
  dilution :: "real option"
  penalties :: "Penalty list"

subsection \<open>Physical model\<close>

text \<open>
  \<^verbatim>\<open>tempAt(waitSec, T0, ambient = 22, tauSec = 120)\<close>. Every call in the repository
  passes all four arguments, so the defaults are not modelled. The division is that of
  the reals; the source divides by the callers' constants 120 and 240.
\<close>

definition tempAt :: "real \<Rightarrow> real \<Rightarrow> real \<Rightarrow> real \<Rightarrow> real" where
  "tempAt wSec T0 ambient tauSec =
     (let t = max 0 wSec
      in ambient + (T0 - ambient) * exp (- t / tauSec))"

text \<open>
  The same expression with the rounding of the program's arithmetic written out: \<open>fl\<close>
  rounds the result of each subtraction, division, multiplication and addition to a number
  of the program, and \<open>ex\<close> is the exponential function of the platform
  (\<^verbatim>\<open>Math.exp\<close>). The maximum and the negation are exact. Without rounding and with the
  real exponential it is \<open>tempAt\<close>.
\<close>

definition tempAtR ::
  "(real \<Rightarrow> real) \<Rightarrow> (real \<Rightarrow> real) \<Rightarrow> real \<Rightarrow> real \<Rightarrow> real \<Rightarrow> real \<Rightarrow> real" where
  "tempAtR fl ex wSec T0 ambient tauSec =
     (let t = max 0 wSec
      in fl (ambient + fl (fl (T0 - ambient) * ex (fl (- t / tauSec)))))"

text \<open>
  The rounding of the program's numbers: binary floating point with 53 significant bits,
  round to nearest, ties to even, for values in the normal range (no overflow, no
  subnormal numbers). \<open>roundEven\<close> rounds to the nearest integer, ties to even.
\<close>

definition roundEven :: "real \<Rightarrow> int" where
  "roundEven r =
     (let f = \<lfloor>r\<rfloor>
      in if r - of_int f < 1 / 2 then f
         else if 1 / 2 < r - of_int f then f + 1
         else if even f then f else f + 1)"

definition round64 :: "real \<Rightarrow> real" where
  "round64 x =
     (if x = 0 then 0
      else (let u = 2 powr (of_int \<lfloor>log 2 \<bar>x\<bar>\<rfloor> - 52)
            in of_int (roundEven (x / u)) * u))"

text \<open>
  \<^verbatim>\<open>dilutionAt(waitSec, surface)\<close>: the parameter's type admits \<^verbatim>\<open>null\<close> and has the
  default \<^verbatim>\<open>'standard'\<close>; both are \<^term>\<open>None\<close> here and both reach the last branch. (Parameters and locals
  whose source name is also a record field are abbreviated: \<open>wSec\<close>, \<open>dil\<close>, \<open>pens\<close>.)
\<close>

definition dilutionAt :: "real \<Rightarrow> IceSurface option \<Rightarrow> real" where
  "dilutionAt wSec surface =
     (let rate = (if surface = Some Large then 0.004
                  else if surface = Some Crushed then 0.008
                  else 0.0055)
      in min 0.6 (max 0 (wSec * rate)))"

subsection \<open>Per-drink evaluation (\<^verbatim>\<open>App.evaluateDrink\<close>)\<close>

text \<open>The result type is \<^verbatim>\<open>Omit<FinishedDrink, 'finishedAt' | 'waitSec'>\<close>.\<close>

record Evaluated =
  ev_drink :: Drink
  ev_tempC :: real
  ev_dilution :: "real option"
  ev_penalties :: "Penalty list"

text \<open>\<^verbatim>\<open>x ?? d\<close>: the default replaces an absent or null value.\<close>

definition nullish :: "'a option \<Rightarrow> 'a \<Rightarrow> 'a" where
  "nullish x d = (case x of None \<Rightarrow> d | Some v \<Rightarrow> v)"

definition evaluateDrink :: "Drink \<Rightarrow> real \<Rightarrow> Evaluated" where
  "evaluateDrink d wait =
     (if category d = STRAIGHT_UP then
        (let temp = tempAt wait (startTempC d) 22 120;
             pens = (if temp > 0
                          then [\<lparr>label = WarmStraightUp, pen_value = (temp / 10) * 12\<rparr>]
                          else [])
         in \<lparr>ev_drink = d, ev_tempC = temp, ev_dilution = None, ev_penalties = pens\<rparr>)
      else if category d = ON_THE_ROCKS then
        (let dil = dilutionAt wait (Some (nullish (iceSurface d) Standard));
             ideal = nullish (idealDilution d) 0.33;
             delta = \<bar>dil - ideal\<bar>;
             pens = [\<lparr>label = DilutionOffTarget, pen_value = delta * 80\<rparr>]
         in \<lparr>ev_drink = d, ev_tempC = startTempC d, ev_dilution = Some dil,
             ev_penalties = pens\<rparr>)
      else
        (let temp = tempAt wait (startTempC d) 22 240;
             pens = (if temp > 12
                          then [\<lparr>label = LostChill, pen_value = (temp - 10) * 2\<rparr>]
                          else [])
         in \<lparr>ev_drink = d, ev_tempC = temp, ev_dilution = None, ev_penalties = pens\<rparr>))"

subsection \<open>Built-in operations of the language\<close>

text \<open>
  \<^verbatim>\<open>new Map(entries)\<close>, and a fresh \<^verbatim>\<open>Map\<close> filled by \<^verbatim>\<open>set\<close> in a loop: a later
  entry for a key replaces an earlier one.
\<close>

definition Map_of_entries :: "('k \<times> 'v) list \<Rightarrow> ('k \<rightharpoonup> 'v)" where
  "Map_of_entries es = fold (\<lambda>(k, v) m. m(k \<mapsto> v)) es Map.empty"

text \<open>The pairs \<^verbatim>\<open>[c, i]\<close> of \<^verbatim>\<open>xs.map((c, i) => [c, i])\<close> and of \<^verbatim>\<open>xs.forEach((c, i) => ...)\<close>.\<close>

definition indexed :: "'a list \<Rightarrow> ('a \<times> nat) list" where
  "indexed xs = zip xs [0 ..< length xs]"

text \<open>\<^verbatim>\<open>Array.prototype.findIndex\<close>; the result \<^verbatim>\<open>-1\<close> is \<^term>\<open>None\<close>.\<close>

fun findIndex :: "('a \<Rightarrow> bool) \<Rightarrow> 'a list \<Rightarrow> nat option" where
  "findIndex P [] = None"
| "findIndex P (x # xs) = (if P x then Some 0 else map_option Suc (findIndex P xs))"

text \<open>
  \<^verbatim>\<open>Array.prototype.sort(cmp)\<close> on a copy of the array. The language standard makes the
  sort stable and puts \<open>a\<close> before \<open>b\<close> when \<open>cmp a b < 0\<close>; it leaves the algorithm open.
  It is modelled by a stable insertion sort: the head of the input goes in front of the
  first element of the sorted rest that it does not have to follow.
\<close>

fun insertBy :: "('a \<Rightarrow> 'a \<Rightarrow> real) \<Rightarrow> 'a \<Rightarrow> 'a list \<Rightarrow> 'a list" where
  "insertBy cmp x [] = [x]"
| "insertBy cmp x (y # ys) = (if cmp x y \<le> 0 then x # y # ys else y # insertBy cmp x ys)"

fun sortBy :: "('a \<Rightarrow> 'a \<Rightarrow> real) \<Rightarrow> 'a list \<Rightarrow> 'a list" where
  "sortBy cmp [] = []"
| "sortBy cmp (x # xs) = insertBy cmp x (sortBy cmp xs)"

subsection \<open>Catalog and queue builder (\<^verbatim>\<open>generateOrders\<close>, \<^verbatim>\<open>sortByFinishQueue\<close>)\<close>

definition generateOrders :: "Drink list" where
  "generateOrders =
     [\<lparr>drink_id = ''1'', drink_name = ''Martini'', category = STRAIGHT_UP,
        baseFinishSec = 12, startTempC = -4, idealDilution = None, iceSurface = None\<rparr>,
      \<lparr>drink_id = ''2'', drink_name = ''Manhattan'', category = STRAIGHT_UP,
        baseFinishSec = 12, startTempC = -3, idealDilution = None, iceSurface = None\<rparr>,
      \<lparr>drink_id = ''3'', drink_name = ''Old Fashioned'', category = ON_THE_ROCKS,
        baseFinishSec = 10, startTempC = 0, idealDilution = Some 0.33, iceSurface = Some Large\<rparr>,
      \<lparr>drink_id = ''4'', drink_name = ''Whiskey Highball'', category = ON_THE_ROCKS,
        baseFinishSec = 8, startTempC = 0, idealDilution = Some 0.33, iceSurface = Some Standard\<rparr>,
      \<lparr>drink_id = ''5'', drink_name = ''Gin & Tonic'', category = ON_THE_ROCKS,
        baseFinishSec = 8, startTempC = 0, idealDilution = Some 0.33, iceSurface = Some Crushed\<rparr>,
      \<lparr>drink_id = ''6'', drink_name = ''Beer'', category = NON_CHILLED,
        baseFinishSec = 5, startTempC = 6, idealDilution = None, iceSurface = None\<rparr>,
      \<lparr>drink_id = ''7'', drink_name = ''White Wine'', category = NON_CHILLED,
        baseFinishSec = 5, startTempC = 7, idealDilution = None, iceSurface = None\<rparr>]"

definition finishQueueCmp :: "(Category \<rightharpoonup> nat) \<Rightarrow> Drink \<Rightarrow> Drink \<Rightarrow> real" where
  "finishQueueCmp orderIndex a b =
     (let ia = nullish (orderIndex (category a)) 99;
          ib = nullish (orderIndex (category b)) 99
      in if ia \<noteq> ib then real ia - real ib
         else baseFinishSec a - baseFinishSec b)"

definition sortByFinishQueue :: "Drink list \<Rightarrow> Category list \<Rightarrow> Drink list" where
  "sortByFinishQueue drinks queue =
     (let orderIndex = Map_of_entries (indexed queue)
      in sortBy (finishQueueCmp orderIndex) drinks)"

subsection \<open>Sequential simulation (\<^verbatim>\<open>simulateFinish\<close>)\<close>

text \<open>
  One iteration of the \<^verbatim>\<open>for\<close> loop, on the loop's variables
  \<open>(clock, finishTimes, finished)\<close>.
\<close>

definition simulateStep ::
  "Drink \<Rightarrow> real \<times> real list \<times> FinishedDrink list \<Rightarrow> real \<times> real list \<times> FinishedDrink list" where
  "simulateStep d st =
     (case st of (clock0, finishTimes, fin) \<Rightarrow>
        let wait = clock0;
            clock1 = clock0 + baseFinishSec d;
            (temp, pens) =
              (if category d = STRAIGHT_UP then
                 (let temp = tempAt wait (startTempC d) 22 120
                  in (temp, if temp > 0
                            then [\<lparr>label = WarmStraightUp, pen_value = (temp / 10) * 12\<rparr>]
                            else []))
               else if category d = ON_THE_ROCKS then
                 (let dil = dilutionAt wait (Some (nullish (iceSurface d) Standard));
                      ideal = nullish (idealDilution d) 0.33;
                      delta = \<bar>dil - ideal\<bar>
                  in (startTempC d, [\<lparr>label = DilutionOffTarget, pen_value = delta * 80\<rparr>]))
               else
                 (let temp = tempAt wait (startTempC d) 22 240
                  in (temp, if temp > 12
                            then [\<lparr>label = LostChill, pen_value = (temp - 10) * 2\<rparr>]
                            else [])));
            dil = (if category d = ON_THE_ROCKS
                   then Some (dilutionAt wait (Some (nullish (iceSurface d) Standard)))
                   else None)
        in (clock1, finishTimes @ [clock1],
            fin @ [\<lparr>drink = d, finishedAt = clock1, waitSec = wait, tempC = temp,
                     dilution = dil, penalties = pens\<rparr>]))"

record SimResult =
  finished :: "FinishedDrink list"
  totalSec :: real
  windowSec :: real

text \<open>\<^verbatim>\<open>Math.max(...xs)\<close> and \<^verbatim>\<open>Math.min(...xs)\<close> are only evaluated on a nonempty array.\<close>

definition simulateFinish :: "Drink list \<Rightarrow> SimResult" where
  "simulateFinish drinksInOrder =
     (case fold simulateStep drinksInOrder (0, [], []) of
        (clock1, finishTimes, fin) \<Rightarrow>
          \<lparr>finished = fin, totalSec = clock1,
           windowSec = (case finishTimes of [] \<Rightarrow> 0
                        | t # ts \<Rightarrow> fold max ts t - fold min ts t)\<rparr>)"

subsection \<open>Scoring (\<^verbatim>\<open>orderPenalty\<close>, \<^verbatim>\<open>scoreRound\<close>)\<close>

definition recommendedOrder :: "Category list" where
  "recommendedOrder = [NON_CHILLED, ON_THE_ROCKS, STRAIGHT_UP]"

text \<open>The two nested index loops; every index read is below \<open>length chosen\<close>.\<close>

definition orderPenalty :: "Category list \<Rightarrow> Category list \<Rightarrow> nat" where
  "orderPenalty reco chosen =
     (let pos = Map_of_entries (indexed reco);
          inversions =
            fold (\<lambda>i invs.
                    fold (\<lambda>j invs.
                            let a = nullish (pos (chosen ! i)) 0;
                                b = nullish (pos (chosen ! j)) 0
                            in if a > b then invs + 1 else invs)
                         [i + 1 ..< length chosen] invs)
                 [0 ..< length chosen] 0
      in inversions * 6)"

record RoundScore =
  score :: real
  breakdown :: "Penalty list"

definition scoreRound :: "FinishedDrink list \<Rightarrow> real \<Rightarrow> Category list \<Rightarrow> RoundScore" where
  "scoreRound fin wSec chosenOrder =
     (let score0 = 100;
          breakdown0 = [];
          (score1, breakdown1) =
            (if wSec > 60 then
               (let p = (wSec - 60) * 0.2
                in (score0 - p, breakdown0 @ [\<lparr>label = LongWindow, pen_value = p\<rparr>]))
             else (score0, breakdown0));
          badOrder = real (orderPenalty recommendedOrder chosenOrder);
          (score2, breakdown2) =
            (if badOrder > 0 then
               (score1 - badOrder,
                breakdown1 @ [\<lparr>label = BadCategoryOrder, pen_value = badOrder\<rparr>])
             else (score1, breakdown1));
          score3 = fold (\<lambda>f s. fold (\<lambda>p s. s - pen_value p) (penalties f) s) fin score2;
          score4 = max 0 (min 100 score3)
      in \<lparr>score = score4, breakdown = breakdown2\<rparr>)"

subsection \<open>Round state and the finish action (\<^verbatim>\<open>App.finishById\<close>)\<close>

datatype Phase = SETUP | RUNNING | RESULTS

record RoundResult =
  res_score :: real
  res_windowSec :: real
  res_totalSec :: real
  res_breakdown :: "Penalty list"

text \<open>
  The component's state variables. A handler reads the values of the current render and
  calls the setters; the next render holds the new values. One call of a handler is a
  function from the state to the next state, and a handler that calls no setter returns
  the state it was given.
\<close>

record AppState =
  phase :: Phase
  orders :: "Drink list"
  queue :: "Category list"
  clock :: real
  remaining :: "Drink list"
  timeline :: "FinishedDrink list"
  result :: "RoundResult option"

definition finishById :: "string \<Rightarrow> AppState \<Rightarrow> AppState" where
  "finishById i s =
     (case findIndex (\<lambda>d. drink_id d = i) (remaining s) of
        None \<Rightarrow> s
      | Some idx \<Rightarrow>
          let d = remaining s ! idx;
              wait = clock s;
              evald = evaluateDrink d wait;
              fAt = clock s + baseFinishSec d;
              fin = \<lparr>drink = ev_drink evald, finishedAt = fAt, waitSec = wait,
                     tempC = ev_tempC evald, dilution = ev_dilution evald,
                     penalties = ev_penalties evald\<rparr>;
              nextRemaining = take idx (remaining s) @ drop (idx + 1) (remaining s);
              nextTimeline = timeline s @ [fin];
              s1 = s\<lparr>remaining := nextRemaining, timeline := nextTimeline, clock := fAt\<rparr>
          in if length nextRemaining = 0 then
               (let total = fAt;
                    window = (if length nextTimeline > 1
                              then finishedAt (nextTimeline ! (length nextTimeline - 1))
                                     - finishedAt (nextTimeline ! 0)
                              else 0);
                    sr = scoreRound nextTimeline window (queue s)
                in s1\<lparr>result := Some \<lparr>res_score = score sr, res_windowSec = window,
                                       res_totalSec = total, res_breakdown = breakdown sr\<rparr>,
                      phase := RESULTS\<rparr>)
             else s1)"

text \<open>
  \<^verbatim>\<open>toggleCategory\<close>, the only handler that changes a nonempty queue: the state update
  applied to the previous queue.
\<close>

definition toggleCategory :: "Category \<Rightarrow> Category list \<Rightarrow> Category list" where
  "toggleCategory cat prev =
     (if cat \<in> set prev then filter (\<lambda>c. c \<noteq> cat) prev
      else if length prev \<ge> 3 then prev
      else prev @ [cat])"

text \<open>A sequence of finish actions, applied from left to right.\<close>

definition finishAll :: "string list \<Rightarrow> AppState \<Rightarrow> AppState" where
  "finishAll ids s = fold finishById ids s"

subsection \<open>Notions used in the statements\<close>

text \<open>The dilution rate per second of each ice-surface class.\<close>

fun iceRate :: "IceSurface \<Rightarrow> real" where
  "iceRate Large = 0.004"
| "iceRate Standard = 0.0055"
| "iceRate Crushed = 0.008"

text \<open>
  The recommended order as a rank: non-chilled first, on the rocks second, straight-up
  last. A category-pair inversion of a queue is a pair of positions whose earlier category
  has the greater rank; \<open>inversions\<close> counts them, each element against those after it.
\<close>

fun recoRank :: "Category \<Rightarrow> nat" where
  "recoRank NON_CHILLED = 0"
| "recoRank ON_THE_ROCKS = 1"
| "recoRank STRAIGHT_UP = 2"

fun inversions :: "Category list \<Rightarrow> nat" where
  "inversions [] = 0"
| "inversions (c # cs) = length (filter (\<lambda>c'. recoRank c' < recoRank c) cs) + inversions cs"

text \<open>The window penalty: a fifth of a point per second of window beyond 60 seconds.\<close>

definition windowPenalty :: "real \<Rightarrow> real" where
  "windowPenalty w = (if w > 60 then (w - 60) * 0.2 else 0)"

text \<open>The sum of all penalty magnitudes of all finished drinks.\<close>

definition penaltyTotal :: "FinishedDrink list \<Rightarrow> real" where
  "penaltyTotal fin = sum_list (map (\<lambda>f. sum_list (map pen_value (penalties f))) fin)"

text \<open>
  The position of a category in a queue, 99 for a category that is not in it, and the
  order of drinks by position first and finish duration second.
\<close>

definition queuePosition :: "Category list \<Rightarrow> Category \<Rightarrow> nat" where
  "queuePosition q c = nullish (findIndex (\<lambda>x. x = c) q) 99"

definition finishKeyLe :: "Category list \<Rightarrow> Drink \<Rightarrow> Drink \<Rightarrow> bool" where
  "finishKeyLe q a b \<longleftrightarrow>
     queuePosition q (category a) < queuePosition q (category b)
     \<or> (queuePosition q (category a) = queuePosition q (category b)
        \<and> baseFinishSec a \<le> baseFinishSec b)"

text \<open>The shape of a finished drink's record that the per-drink evaluation produces.\<close>

definition finishedShape :: "FinishedDrink \<Rightarrow> bool" where
  "finishedShape f \<longleftrightarrow>
     length (penalties f) \<le> 1
     \<and> (category (drink f) = ON_THE_ROCKS \<longrightarrow>
          length (penalties f) = 1 \<and> tempC f = startTempC (drink f))
     \<and> ((dilution f \<noteq> None) = (category (drink f) = ON_THE_ROCKS))"

section \<open>Properties\<close>

subsection \<open>Auxiliary facts\<close>

lemma exp_minus_one_le_half: "exp (- 1 :: real) \<le> 1 / 2"
proof -
  have "(2::real) \<le> exp 1" using exp_ge_add_one_self [of "1::real"] by simp
  then show ?thesis by (simp add: exp_minus field_simps)
qed

lemma fold_sub_penalties:
  "fold (\<lambda>p s. s - pen_value p) ps s = s - sum_list (map pen_value ps)"
  by (induction ps arbitrary: s) simp_all

lemma fold_sub_finished:
  "fold (\<lambda>f s. fold (\<lambda>p s. s - pen_value p) (penalties f) s) fin s = s - penaltyTotal fin"
  by (induction fin arbitrary: s) (simp_all add: penaltyTotal_def fold_sub_penalties)

lemma scoreRound_score:
  "score (scoreRound fin w q) =
     max 0 (min 100 (100 - windowPenalty w
                         - real (orderPenalty recommendedOrder q) - penaltyTotal fin))"
  by (simp add: scoreRound_def Let_def fold_sub_finished windowPenalty_def)

lemma scoreRound_breakdown:
  "breakdown (scoreRound fin w q) =
     (if w > 60 then [\<lparr>label = LongWindow, pen_value = (w - 60) * 0.2\<rparr>] else [])
     @ (if orderPenalty recommendedOrder q > 0
        then [\<lparr>label = BadCategoryOrder, pen_value = real (orderPenalty recommendedOrder q)\<rparr>]
        else [])"
  by (simp add: scoreRound_def Let_def)

lemma reco_pos: "Map_of_entries (indexed recommendedOrder) c = Some (recoRank c)"
  by (cases c) (simp_all add: Map_of_entries_def indexed_def recommendedOrder_def upt_rec)

lemma fold_count:
  "fold (\<lambda>j k. if P j then k + 1 else k) js (n::nat) = n + length (filter P js)"
  by (induction js arbitrary: n) simp_all

lemma fold_add:
  "fold (\<lambda>i k. k + g i) js (n::nat) = n + sum_list (map g js)"
  by (induction js arbitrary: n) simp_all

lemma map_nth_from: "map ((!) xs) [k ..< length xs] = drop k xs"
  by (simp add: list_eq_iff_nth_eq)

lemma count_from:
  "length (filter (\<lambda>j. Q (xs ! j)) [k ..< length xs]) = length (filter Q (drop k xs))"
proof -
  have "filter Q (map ((!) xs) [k ..< length xs]) = map ((!) xs) (filter (\<lambda>j. Q (xs ! j)) [k ..< length xs])"
    by (simp add: filter_map comp_def)
  then show ?thesis by (metis length_map map_nth_from)
qed

lemma orderPenalty_sum:
  "orderPenalty recommendedOrder chosen =
     6 * sum_list (map (\<lambda>i. length (filter (\<lambda>c'. recoRank c' < recoRank (chosen ! i))
                                         (drop (Suc i) chosen)))
                       [0 ..< length chosen])"
proof -
  have "length (filter (\<lambda>j. recoRank (chosen ! j) < recoRank (chosen ! i)) [Suc i ..< length chosen])
        = length (filter (\<lambda>c'. recoRank c' < recoRank (chosen ! i)) (drop (Suc i) chosen))" for i
    using count_from [of "\<lambda>c'. recoRank c' < recoRank (chosen ! i)" chosen "Suc i"] .
  then show ?thesis
    by (simp add: orderPenalty_def Let_def reco_pos nullish_def fold_count fold_add)
qed

lemma inversions_sum:
  "inversions xs =
     sum_list (map (\<lambda>i. length (filter (\<lambda>c'. recoRank c' < recoRank (xs ! i)) (drop (Suc i) xs)))
                   [0 ..< length xs])"
proof (induction xs)
  case Nil
  then show ?case by simp
next
  case (Cons c cs)
  have "[0 ..< length (c # cs)] = 0 # map Suc [0 ..< length cs]"
    by (simp only: length_Cons map_Suc_upt upt_conv_Cons [OF zero_less_Suc])
  then show ?case using Cons.IH by (simp add: comp_def)
qed

lemma orderPenalty_inversions: "orderPenalty recommendedOrder chosen = 6 * inversions chosen"
  by (simp add: orderPenalty_sum inversions_sum)

lemma inversions_zero:
  "inversions xs = 0 \<longleftrightarrow> sorted_wrt (\<lambda>a b. recoRank a \<le> recoRank b) xs"
  by (induction xs) (auto simp: filter_empty_conv not_less)

lemma simulate_two_on_the_rocks:
  "finished (simulateFinish [generateOrders ! 2, generateOrders ! 3]) =
     [\<lparr>drink = generateOrders ! 2, finishedAt = 10, waitSec = 0, tempC = 0,
        dilution = Some 0, penalties = [\<lparr>label = DilutionOffTarget, pen_value = 26.4\<rparr>]\<rparr>,
      \<lparr>drink = generateOrders ! 3, finishedAt = 18, waitSec = 10, tempC = 0,
        dilution = Some 0.055, penalties = [\<lparr>label = DilutionOffTarget, pen_value = 22\<rparr>]\<rparr>]"
  by (simp add: simulateFinish_def simulateStep_def generateOrders_def dilutionAt_def
      nullish_def)

lemma penaltyTotal_two_on_the_rocks:
  "penaltyTotal (finished (simulateFinish [generateOrders ! 2, generateOrders ! 3])) = 48.4"
  by (simp add: simulate_two_on_the_rocks penaltyTotal_def)

lemma findIndex_None: "findIndex P xs = None \<longleftrightarrow> (\<forall>x \<in> set xs. \<not> P x)"
  by (induction xs) simp_all

lemma findIndex_Some:
  "findIndex P xs = Some k \<Longrightarrow> k < length xs \<and> P (xs ! k) \<and> (\<forall>j < k. \<not> P (xs ! j))"
proof (induction xs arbitrary: k)
  case Nil
  then show ?case by simp
next
  case (Cons x xs)
  show ?case
  proof (cases "P x")
    case True
    with Cons.prems show ?thesis by simp
  next
    case False
    with Cons.prems obtain k' where k': "findIndex P xs = Some k'" "k = Suc k'"
      by auto
    from Cons.IH [OF k'(1)] False k'(2) show ?thesis
      by (auto simp: nth_Cons split: nat.splits)
  qed
qed

lemma ev_drink_evaluateDrink: "ev_drink (evaluateDrink d w) = d"
  by (simp add: evaluateDrink_def Let_def)

lemma finishById_found:
  assumes "findIndex (\<lambda>d. drink_id d = i) (remaining s) = Some k"
  shows "remaining (finishById i s) = take k (remaining s) @ drop (Suc k) (remaining s)"
    and "timeline (finishById i s) =
           timeline s @
             [\<lparr>drink = remaining s ! k, finishedAt = clock s + baseFinishSec (remaining s ! k),
               waitSec = clock s, tempC = ev_tempC (evaluateDrink (remaining s ! k) (clock s)),
               dilution = ev_dilution (evaluateDrink (remaining s ! k) (clock s)),
               penalties = ev_penalties (evaluateDrink (remaining s ! k) (clock s))\<rparr>]"
    and "clock (finishById i s) = clock s + baseFinishSec (remaining s ! k)"
  using assms by (simp_all add: finishById_def Let_def ev_drink_evaluateDrink)

lemma finishById_absent:
  assumes "findIndex (\<lambda>d. drink_id d = i) (remaining s) = None"
  shows "finishById i s = s"
  using assms by (simp add: finishById_def)

lemma finishById_remaining_subset: "set (remaining (finishById i s)) \<subseteq> set (remaining s)"
proof (cases "findIndex (\<lambda>d. drink_id d = i) (remaining s)")
  case None
  then show ?thesis by (simp add: finishById_absent)
next
  case (Some k)
  have "set (take k (remaining s)) \<subseteq> set (remaining s)"
    by (rule set_take_subset)
  moreover have "set (drop (Suc k) (remaining s)) \<subseteq> set (remaining s)"
    by (rule set_drop_subset)
  ultimately show ?thesis by (simp add: finishById_found(1) [OF Some])
qed

lemma finishById_clock_le:
  assumes "\<forall>d \<in> set (remaining s). 0 \<le> baseFinishSec d"
  shows "clock s \<le> clock (finishById i s)"
proof (cases "findIndex (\<lambda>d. drink_id d = i) (remaining s)")
  case None
  then show ?thesis by (simp add: finishById_absent)
next
  case (Some k)
  then have "k < length (remaining s)" by (simp add: findIndex_Some)
  then have "0 \<le> baseFinishSec (remaining s ! k)" using assms by simp
  then show ?thesis by (simp add: finishById_found(3) [OF Some])
qed

lemma finishAll_clock_le:
  "\<forall>d \<in> set (remaining s). 0 \<le> baseFinishSec d \<Longrightarrow> clock s \<le> clock (finishAll ids s)"
proof (induction ids arbitrary: s)
  case Nil
  then show ?case by (simp add: finishAll_def)
next
  case (Cons i ids)
  have "\<forall>d \<in> set (remaining (finishById i s)). 0 \<le> baseFinishSec d"
    using Cons.prems finishById_remaining_subset [of i s] by blast
  then have "clock (finishById i s) \<le> clock (finishAll ids (finishById i s))"
    by (rule Cons.IH)
  moreover have "clock s \<le> clock (finishById i s)"
    using Cons.prems by (rule finishById_clock_le)
  ultimately show ?case by (simp add: finishAll_def)
qed

lemma evaluateDrink_shape:
  "length (ev_penalties (evaluateDrink d w)) \<le> 1
   \<and> (category d = ON_THE_ROCKS \<longrightarrow>
        length (ev_penalties (evaluateDrink d w)) = 1
        \<and> ev_tempC (evaluateDrink d w) = startTempC d)
   \<and> ((ev_dilution (evaluateDrink d w) \<noteq> None) = (category d = ON_THE_ROCKS))"
  by (simp add: evaluateDrink_def Let_def)

lemma simulateStep_shape:
  assumes "simulateStep d (c, ts, fin) = (c', ts', fin')"
  shows "\<exists>f. fin' = fin @ [f] \<and> finishedShape f \<and> drink f = d \<and> waitSec f = c
             \<and> finishedAt f = c + baseFinishSec d"
  using assms
  by (cases "category d") (auto simp: simulateStep_def Let_def finishedShape_def)

lemma fold_simulateStep_shape:
  "fold simulateStep ds (c, ts, fin) = (c', ts', fin') \<Longrightarrow>
   \<forall>f \<in> set fin. finishedShape f \<Longrightarrow> \<forall>f \<in> set fin'. finishedShape f"
proof (induction ds arbitrary: c ts fin)
  case Nil
  then show ?case by simp
next
  case (Cons d ds)
  obtain c1 ts1 fin1 where st: "simulateStep d (c, ts, fin) = (c1, ts1, fin1)"
    by (cases "simulateStep d (c, ts, fin)") auto
  from simulateStep_shape [OF st] Cons.prems(2)
  have "\<forall>f \<in> set fin1. finishedShape f" by auto
  moreover from Cons.prems(1) st have "fold simulateStep ds (c1, ts1, fin1) = (c', ts', fin')"
    by simp
  ultimately show ?case by (rule Cons.IH [rotated])
qed

lemma simulateFinish_shape: "\<forall>f \<in> set (finished (simulateFinish ds)). finishedShape f"
proof -
  obtain c' ts' fin' where r: "fold simulateStep ds (0, [], []) = (c', ts', fin')"
    by (cases "fold simulateStep ds (0, [], [])") auto
  from fold_simulateStep_shape [OF r] have "\<forall>f \<in> set fin'. finishedShape f" by simp
  with r show ?thesis by (simp add: simulateFinish_def)
qed

lemma simulateStep_clock:
  assumes "simulateStep d (c, ts, fin) = (c', ts', fin')"
  shows "c' = c + baseFinishSec d \<and> ts' = ts @ [c + baseFinishSec d]
         \<and> map finishedAt fin' = map finishedAt fin @ [c + baseFinishSec d]
         \<and> map waitSec fin' = map waitSec fin @ [c]"
  using assms
  by (cases "category d") (auto simp: simulateStep_def Let_def)

lemma fold_simulateStep_clock:
  "fold simulateStep ds (c, ts, fin) = (c', ts', fin') \<Longrightarrow>
   \<forall>d \<in> set ds. 0 \<le> baseFinishSec d \<Longrightarrow>
   sorted (map finishedAt fin) \<Longrightarrow> \<forall>t \<in> set (map finishedAt fin). t \<le> c \<Longrightarrow>
   c' = c + sum_list (map baseFinishSec ds) \<and> sorted (map finishedAt fin')
   \<and> (\<forall>t \<in> set (map finishedAt fin'). t \<le> c')"
proof (induction ds arbitrary: c ts fin)
  case Nil
  then show ?case by simp
next
  case (Cons d ds)
  obtain c1 ts1 fin1 where st: "simulateStep d (c, ts, fin) = (c1, ts1, fin1)"
    by (cases "simulateStep d (c, ts, fin)") auto
  note sc = simulateStep_clock [OF st]
  have d0: "0 \<le> baseFinishSec d" using Cons.prems(2) by simp
  have rest: "fold simulateStep ds (c1, ts1, fin1) = (c', ts', fin')"
    using Cons.prems(1) st by simp
  have nonneg: "\<forall>d \<in> set ds. 0 \<le> baseFinishSec d" using Cons.prems(2) by simp
  have srt: "sorted (map finishedAt fin1)"
    using sc Cons.prems(3,4) d0 by (auto simp: sorted_append intro: order_trans)
  have bnd: "\<forall>t \<in> set (map finishedAt fin1). t \<le> c1"
    using sc Cons.prems(4) d0 by (auto intro: order_trans)
  from Cons.IH [OF rest nonneg srt bnd] sc show ?case by (auto simp: add.assoc)
qed

lemma simulateFinish_clock:
  assumes "\<forall>d \<in> set ds. 0 \<le> baseFinishSec d"
  shows "sorted (map finishedAt (finished (simulateFinish ds)))
         \<and> totalSec (simulateFinish ds) = sum_list (map baseFinishSec ds)"
proof -
  obtain c' ts' fin' where r: "fold simulateStep ds (0, [], []) = (c', ts', fin')"
    by (cases "fold simulateStep ds (0, [], [])") auto
  from fold_simulateStep_clock [OF r assms] r show ?thesis
    by (simp add: simulateFinish_def)
qed

lemma finishById_shape:
  assumes "\<forall>f \<in> set (timeline s). finishedShape f"
  shows "\<forall>f \<in> set (timeline (finishById i s)). finishedShape f"
proof (cases "findIndex (\<lambda>d. drink_id d = i) (remaining s)")
  case None
  with assms show ?thesis by (simp add: finishById_absent)
next
  case (Some k)
  show ?thesis
    using assms evaluateDrink_shape [of "remaining s ! k" "clock s"]
    by (auto simp: finishById_found(2) [OF Some] finishedShape_def)
qed

lemma mset_insertBy: "mset (insertBy cmp x ys) = add_mset x (mset ys)"
  by (induction ys) simp_all

lemma mset_sortBy: "mset (sortBy cmp xs) = mset xs"
  by (induction xs) (simp_all add: mset_insertBy)

lemma set_insertBy: "set (insertBy cmp x ys) = insert x (set ys)"
  using mset_insertBy [of cmp x ys, THEN arg_cong, of set_mset] by simp

lemma sorted_insertBy:
  assumes le: "\<And>a b. le a b \<longleftrightarrow> cmp a b \<le> 0"
    and total: "\<And>a b. le a b \<or> le b a"
    and trans: "\<And>a b c. le a b \<Longrightarrow> le b c \<Longrightarrow> le a c"
  shows "sorted_wrt le ys \<Longrightarrow> sorted_wrt le (insertBy cmp x ys)"
proof (induction ys)
  case Nil
  then show ?case by simp
next
  case (Cons y ys)
  show ?case
  proof (cases "cmp x y \<le> 0")
    case True
    then have "le x y" by (simp add: le)
    with Cons.prems have "\<forall>z \<in> set (y # ys). le x z"
      using trans by auto
    with True Cons.prems show ?thesis by simp
  next
    case False
    then have "le y x" using total [of x y] by (simp add: le)
    with False Cons show ?thesis by (auto simp: set_insertBy)
  qed
qed

lemma sorted_sortBy:
  assumes "\<And>a b. le a b \<longleftrightarrow> cmp a b \<le> 0"
    and "\<And>a b. le a b \<or> le b a"
    and "\<And>a b c. le a b \<Longrightarrow> le b c \<Longrightarrow> le a c"
  shows "sorted_wrt le (sortBy cmp xs)"
proof (induction xs)
  case Nil
  then show ?case by simp
next
  case (Cons x xs)
  from sorted_insertBy [of le cmp, OF assms Cons.IH] show ?case by simp
qed

lemma filter_insertBy:
  assumes "\<And>a b. P a \<Longrightarrow> P b \<Longrightarrow> cmp a b \<le> 0"
  shows "filter P (insertBy cmp x ys) = filter P (x # ys)"
proof (induction ys)
  case Nil
  then show ?case by simp
next
  case (Cons y ys)
  show ?case
  proof (cases "cmp x y \<le> 0")
    case True
    then show ?thesis by simp
  next
    case False
    then have "\<not> (P x \<and> P y)" using assms by blast
    with False Cons.IH show ?thesis by auto
  qed
qed

lemma filter_sortBy:
  assumes "\<And>a b. P a \<Longrightarrow> P b \<Longrightarrow> cmp a b \<le> 0"
  shows "filter P (sortBy cmp xs) = filter P xs"
proof (induction xs)
  case Nil
  then show ?case by simp
next
  case (Cons x xs)
  have "filter P (sortBy cmp (x # xs)) = filter P (x # sortBy cmp xs)"
    using filter_insertBy [of P cmp, OF assms] by simp
  with Cons.IH show ?case by simp
qed

lemma fold_set_indexed:
  "distinct q \<Longrightarrow>
   fold (\<lambda>(c, i) m. m(c \<mapsto> i)) (zip q [k ..< k + length q]) m0 c =
     (case findIndex (\<lambda>x. x = c) q of None \<Rightarrow> m0 c | Some i \<Rightarrow> Some (i + k))"
proof (induction q arbitrary: k m0)
  case Nil
  then show ?case by simp
next
  case (Cons x xs)
  have zip: "zip (x # xs) [k ..< k + length (x # xs)] = (x, k) # zip xs [Suc k ..< Suc k + length xs]"
    by (simp add: upt_conv_Cons del: upt_Suc)
  have ih: "fold (\<lambda>(c, i) m. m(c \<mapsto> i)) (zip xs [Suc k ..< Suc k + length xs]) (m0(x \<mapsto> k)) c =
     (case findIndex (\<lambda>x. x = c) xs of None \<Rightarrow> (m0(x \<mapsto> k)) c | Some i \<Rightarrow> Some (i + Suc k))"
    using Cons.prems by (intro Cons.IH) simp
  have step: "fold (\<lambda>(c, i) m. m(c \<mapsto> i)) (zip (x # xs) [k ..< k + length (x # xs)]) m0 =
      fold (\<lambda>(c, i) m. m(c \<mapsto> i)) (zip xs [Suc k ..< Suc k + length xs]) (m0(x \<mapsto> k))"
    unfolding zip by simp
  show ?case
  proof (cases "x = c")
    case True
    with Cons.prems have "findIndex (\<lambda>x. x = c) xs = None"
      by (auto simp: findIndex_None)
    with True show ?thesis unfolding step ih by simp
  next
    case False
    then show ?thesis unfolding step ih by (simp split: option.splits)
  qed
qed

lemma orderIndex_distinct:
  "distinct q \<Longrightarrow> nullish (Map_of_entries (indexed q) c) 99 = queuePosition q c"
  using fold_set_indexed [of q 0 Map.empty c]
  by (simp add: Map_of_entries_def indexed_def queuePosition_def nullish_def split: option.splits)

lemma Category_UNIV: "(UNIV :: Category set) = {STRAIGHT_UP, ON_THE_ROCKS, NON_CHILLED}"
  using Category.exhaust by auto

lemma distinct_queue_length: "distinct (q :: Category list) \<Longrightarrow> length q \<le> 3"
proof -
  assume "distinct q"
  then have "length q = card (set q)" by (simp add: distinct_card)
  also have "\<dots> \<le> card (UNIV :: Category set)"
  proof (rule card_mono)
    show "finite (UNIV :: Category set)" by (simp add: Category_UNIV)
    show "set q \<subseteq> UNIV" by (rule subset_UNIV)
  qed
  also have "\<dots> = 3" by (simp add: Category_UNIV)
  finally show ?thesis .
qed

lemma queuePosition_present:
  assumes "distinct q" "c \<in> set q"
  shows "queuePosition q c < length q \<and> q ! queuePosition q c = c \<and> queuePosition q c < 99"
proof -
  from assms(2) have "findIndex (\<lambda>x. x = c) q \<noteq> None"
    by (auto simp: findIndex_None)
  then obtain k where k: "findIndex (\<lambda>x. x = c) q = Some k" by auto
  from findIndex_Some [OF k] distinct_queue_length [OF assms(1)] k show ?thesis
    by (simp add: queuePosition_def nullish_def)
qed

lemma queuePosition_absent: "c \<notin> set q \<Longrightarrow> queuePosition q c = 99"
proof -
  assume "c \<notin> set q"
  then have "findIndex (\<lambda>x. x = c) q = None" by (auto simp: findIndex_None)
  then show ?thesis by (simp add: queuePosition_def nullish_def)
qed

lemma finishQueueCmp_le:
  assumes "distinct q"
  shows "finishKeyLe q a b \<longleftrightarrow> finishQueueCmp (Map_of_entries (indexed q)) a b \<le> 0"
  by (auto simp: finishQueueCmp_def Let_def orderIndex_distinct [OF assms] finishKeyLe_def)

lemma finishKeyLe_total: "finishKeyLe q a b \<or> finishKeyLe q b a"
  by (auto simp: finishKeyLe_def)

lemma finishKeyLe_trans: "finishKeyLe q a b \<Longrightarrow> finishKeyLe q b c \<Longrightarrow> finishKeyLe q a c"
  by (auto simp: finishKeyLe_def)

lemma sortByFinishQueue_catalog:
  "map drink_id (sortByFinishQueue generateOrders recommendedOrder) =
     [''6'', ''7'', ''4'', ''5'', ''3'', ''1'', ''2'']"
  by (simp add: sortByFinishQueue_def generateOrders_def recommendedOrder_def
      Map_of_entries_def indexed_def finishQueueCmp_def nullish_def upt_rec)

lemma toggleCategory_distinct: "distinct prev \<Longrightarrow> distinct (toggleCategory cat prev)"
  by (simp add: toggleCategory_def)

lemma tempAtR_exact: "tempAtR (\<lambda>x. x) exp = tempAt"
  by (simp add: tempAtR_def tempAt_def fun_eq_iff)

lemma round64_binade:
  assumes "2 powr of_int e \<le> \<bar>x\<bar>" and "\<bar>x\<bar> < 2 powr of_int (e + 1)"
  shows "round64 x = of_int (roundEven (x / 2 powr of_int (e - 52))) * 2 powr of_int (e - 52)"
proof -
  have "0 < (2::real) powr of_int e" by simp
  with assms(1) have pos: "0 < \<bar>x\<bar>" by linarith
  have "of_int e \<le> log 2 \<bar>x\<bar>" using assms(1) pos by (simp add: le_log_iff)
  moreover have "log 2 \<bar>x\<bar> < of_int e + 1" using assms(2) pos by (simp add: log_less_iff)
  ultimately have "\<lfloor>log 2 \<bar>x\<bar>\<rfloor> = e" by (simp add: floor_eq_iff)
  moreover have "x \<noteq> 0" using pos by auto
  ultimately show ?thesis by (simp add: round64_def Let_def)
qed

lemma round64_tenth: "round64 (1 / 10) = 7205759403792794 / 2 ^ 56"
  using round64_binade [of "-4" "1 / 10"]
  by (simp add: powr_minus powr_numeral roundEven_def Let_def field_simps)


lemma round64_one: "round64 1 = 1"
  using round64_binade [of 0 1]
  by (simp add: powr_minus powr_numeral roundEven_def Let_def field_simps)

lemma round64_tenth_minus_22:
  "round64 (7205759403792794 / 2 ^ 56 - 22) = - (6164301989963366 / 2 ^ 48)"
  using round64_binade [of 4 "7205759403792794 / 2 ^ 56 - 22"]
  by (simp add: powr_minus powr_numeral roundEven_def Let_def field_simps)

lemma round64_diff_exact:
  "round64 (- (6164301989963366 / 2 ^ 48)) = - (6164301989963366 / 2 ^ 48)"
  using round64_binade [of 4 "- (6164301989963366 / 2 ^ 48)"]
  by (simp add: powr_minus powr_numeral roundEven_def Let_def field_simps)

lemma round64_sum_exact:
  "round64 (22 - 6164301989963366 / 2 ^ 48) = 7205759403792896 / 2 ^ 56"
  using round64_binade [of "-4" "22 - 6164301989963366 / 2 ^ 48"]
  by (simp add: powr_minus powr_numeral roundEven_def Let_def field_simps)

lemma tempAtR_tenth:
  "tempAtR round64 (\<lambda>x. round64 (exp x)) 0 (round64 (1 / 10)) 22 120 = 7205759403792896 / 2 ^ 56"
proof -
  have z: "round64 0 = 0" by (simp add: round64_def)
  have e: "round64 (exp (round64 (- max 0 0 / 120))) = 1"
    by (simp add: z round64_one)
  have "tempAtR round64 (\<lambda>x. round64 (exp x)) 0 (round64 (1 / 10)) 22 120
        = round64 (22 + round64 (round64 (7205759403792794 / 2 ^ 56 - 22) * 1))"
    unfolding tempAtR_def Let_def round64_tenth e ..
  also have "\<dots> = round64 (22 + round64 (- (6164301989963366 / 2 ^ 48)))"
    unfolding round64_tenth_minus_22 mult_1_right ..
  also have "\<dots> = round64 (22 - 6164301989963366 / 2 ^ 48)"
    unfolding round64_diff_exact add_uminus_conv_diff ..
  also have "\<dots> = 7205759403792896 / 2 ^ 56"
    by (rule round64_sum_exact)
  finally show ?thesis .
qed

lemma tempAtR_mono:
  assumes tau: "0 < tau" and fl: "mono fl" and fl0: "fl 0 = 0" and ex: "mono ex"
    and cold: "T0 < ambient" and le: "w1 \<le> w2"
  shows "tempAtR fl ex w1 T0 ambient tau \<le> tempAtR fl ex w2 T0 ambient tau"
proof -
  have "max 0 w1 \<le> max 0 w2" using le by (rule max.mono [OF order_refl])
  then have "- max 0 w2 \<le> - max 0 w1" by (simp only: neg_le_iff_le)
  moreover have "0 \<le> tau" using tau by (rule less_imp_le)
  ultimately have "- max 0 w2 / tau \<le> - max 0 w1 / tau"
    by (rule divide_right_mono)
  then have "fl (- max 0 w2 / tau) \<le> fl (- max 0 w1 / tau)"
    by (rule monoD [OF fl])
  then have e: "ex (fl (- max 0 w2 / tau)) \<le> ex (fl (- max 0 w1 / tau))"
    by (rule monoD [OF ex])
  have "T0 - ambient \<le> 0" using cold by (simp only: diff_le_0_iff_le less_imp_le)
  then have "fl (T0 - ambient) \<le> fl 0" by (rule monoD [OF fl])
  then have c: "fl (T0 - ambient) \<le> 0" by (simp only: fl0)
  have "fl (T0 - ambient) * ex (fl (- max 0 w1 / tau))
          \<le> fl (T0 - ambient) * ex (fl (- max 0 w2 / tau))"
    using e c by (rule mult_left_mono_neg)
  then have "fl (fl (T0 - ambient) * ex (fl (- max 0 w1 / tau)))
          \<le> fl (fl (T0 - ambient) * ex (fl (- max 0 w2 / tau)))"
    by (rule monoD [OF fl])
  then have "ambient + fl (fl (T0 - ambient) * ex (fl (- max 0 w1 / tau)))
          \<le> ambient + fl (fl (T0 - ambient) * ex (fl (- max 0 w2 / tau)))"
    by (rule add_left_mono)
  then have "fl (ambient + fl (fl (T0 - ambient) * ex (fl (- max 0 w1 / tau))))
          \<le> fl (ambient + fl (fl (T0 - ambient) * ex (fl (- max 0 w2 / tau))))"
    by (rule monoD [OF fl])
  then show ?thesis unfolding tempAtR_def Let_def .
qed


lemma tempAtR_zero:
  assumes fl0: "fl 0 = 0" and idem: "\<forall>x. fl (fl x) = fl x" and ex0: "ex 0 = 1"
  shows "tempAtR fl ex 0 T0 ambient tau = fl (ambient + fl (T0 - ambient))"
proof -
  have "fl (- max 0 0 / tau) = 0" by (simp add: fl0)
  then have "tempAtR fl ex 0 T0 ambient tau = fl (ambient + fl (fl (T0 - ambient) * 1))"
    by (simp only: tempAtR_def Let_def ex0)
  also have "fl (fl (T0 - ambient) * 1) = fl (T0 - ambient)"
    using idem by (simp only: mult_1_right)
  finally show ?thesis .
qed

lemma mono_exact: "mono (\<lambda>x::real. x)" "mono (exp :: real \<Rightarrow> real)"
  by (simp_all add: mono_def)

lemma roundEven_of_int: "roundEven (of_int k) = k"
  by (simp add: roundEven_def)

lemma roundEven_upper: "roundEven r \<le> \<lfloor>r\<rfloor> + 1"
  by (simp add: roundEven_def Let_def)

lemma roundEven_lower: "\<lfloor>r\<rfloor> \<le> roundEven r"
  by (simp add: roundEven_def Let_def)

lemma roundEven_mono:
  assumes "r \<le> s"
  shows "roundEven r \<le> roundEven s"
proof (cases "\<lfloor>r\<rfloor> = \<lfloor>s\<rfloor>")
  case True
  with assms show ?thesis by (auto simp: roundEven_def Let_def)
next
  case False
  moreover have "\<lfloor>r\<rfloor> \<le> \<lfloor>s\<rfloor>" using assms by (rule floor_mono)
  ultimately have "\<lfloor>r\<rfloor> + 1 \<le> \<lfloor>s\<rfloor>" by simp
  with roundEven_upper [of r] roundEven_lower [of s] show ?thesis by linarith
qed

lemma binade_bounds:
  assumes "x \<noteq> 0"
  shows "2 powr of_int \<lfloor>log 2 \<bar>x\<bar>\<rfloor> \<le> \<bar>x\<bar>"
    and "\<bar>x\<bar> < 2 powr of_int (\<lfloor>log 2 \<bar>x\<bar>\<rfloor> + 1)"
proof -
  have pos: "0 < \<bar>x\<bar>" using assms by simp
  have "of_int \<lfloor>log 2 \<bar>x\<bar>\<rfloor> \<le> log 2 \<bar>x\<bar>" by (rule of_int_floor_le)
  then show "2 powr of_int \<lfloor>log 2 \<bar>x\<bar>\<rfloor> \<le> \<bar>x\<bar>"
    using pos by (simp only: le_log_iff [OF _ pos] one_less_numeral_iff semiring_norm)
  have "log 2 \<bar>x\<bar> < of_int (\<lfloor>log 2 \<bar>x\<bar>\<rfloor> + 1)"
    by simp
  then show "\<bar>x\<bar> < 2 powr of_int (\<lfloor>log 2 \<bar>x\<bar>\<rfloor> + 1)"
    using pos by (simp only: log_less_iff [OF _ pos] one_less_numeral_iff semiring_norm)
qed

lemma ulp_scale:
  fixes e :: int
  defines "u \<equiv> (2::real) powr of_int (e - 52)"
  shows "0 < u" and "2 powr of_int e = 2 ^ 52 * u" and "2 powr of_int (e + 1) = 2 ^ 53 * u"
    and "2 powr of_int (e + 1 - 52) = 2 * u" and "2 powr of_int (e + 2) = 2 ^ 54 * u"
proof -
  show "0 < u" by (simp add: u_def)
  have a: "(2::real) powr (of_int (e - 52) + 52) = 2 powr of_int (e - 52) * 2 powr 52"
    by (rule powr_add)
  have b: "(2::real) powr 52 = 2 ^ 52" by (simp add: powr_numeral)
  have "of_int (e - 52) + 52 = (of_int e :: real)" by simp
  with a b show e0: "2 powr of_int e = 2 ^ 52 * u" by (simp add: u_def)
  have c: "(2::real) powr (of_int e + 1) = 2 powr of_int e * 2 powr 1" by (rule powr_add)
  then show e1: "2 powr of_int (e + 1) = 2 ^ 53 * u" using e0 by simp
  have d: "(2::real) powr (of_int (e - 52) + 1) = 2 powr of_int (e - 52) * 2 powr 1"
    by (rule powr_add)
  have "of_int (e + 1 - 52) = (of_int (e - 52) + 1 :: real)" by simp
  with d show "2 powr of_int (e + 1 - 52) = 2 * u" by (simp add: u_def)
  have f: "(2::real) powr (of_int e + 2) = 2 powr of_int e * 2 powr 2"
    by (rule powr_add)
  have g: "(2::real) powr 2 = 4" by (simp add: powr_numeral)
  have "(2::real) powr of_int (e + 2) = 2 powr of_int e * 4"
    by (simp only: of_int_add of_int_numeral f g)
  then show "2 powr of_int (e + 2) = 2 ^ 54 * u" using e0 by simp
qed


lemma round64_pos:
  fixes e :: int
  defines "u \<equiv> (2::real) powr of_int (e - 52)"
  assumes lo: "2 powr of_int e \<le> x" and hi: "x < 2 powr of_int (e + 1)"
  shows "\<exists>n. round64 x = of_int n * u \<and> 2 ^ 52 \<le> n \<and> n \<le> 2 ^ 53"
proof -
  note sc = ulp_scale [of e, folded u_def]
  have "0 < (2::real) powr of_int e" by simp
  with lo have xpos: "0 < x" by linarith
  then have ax: "\<bar>x\<bar> = x" by simp
  have r: "round64 x = of_int (roundEven (x / u)) * u"
    using round64_binade [of e x] lo hi by (simp only: ax u_def)
  have "2 ^ 52 * u \<le> x" using lo by (simp only: sc(2))
  then have "of_int (2 ^ 52) \<le> x / u" using sc(1) by (simp add: pos_le_divide_eq)
  then have "roundEven (of_int (2 ^ 52)) \<le> roundEven (x / u)" by (rule roundEven_mono)
  then have a: "2 ^ 52 \<le> roundEven (x / u)" by (simp only: roundEven_of_int)
  have "x \<le> 2 ^ 53 * u" using hi by (simp only: sc(3))
  then have "x / u \<le> of_int (2 ^ 53)" using sc(1) by (simp add: pos_divide_le_eq)
  then have "roundEven (x / u) \<le> roundEven (of_int (2 ^ 53))" by (rule roundEven_mono)
  then have b: "roundEven (x / u) \<le> 2 ^ 53" by (simp only: roundEven_of_int)
  from r a b show ?thesis by blast
qed

lemma round64_neg:
  fixes e :: int
  defines "u \<equiv> (2::real) powr of_int (e - 52)"
  assumes lo: "2 powr of_int e \<le> - x" and hi: "- x < 2 powr of_int (e + 1)"
  shows "\<exists>n. round64 x = of_int n * u \<and> - (2 ^ 53) \<le> n \<and> n \<le> - (2 ^ 52)"
proof -
  note sc = ulp_scale [of e, folded u_def]
  have "0 < (2::real) powr of_int e" by simp
  with lo have xneg: "x < 0" by linarith
  then have ax: "\<bar>x\<bar> = - x" by simp
  have r: "round64 x = of_int (roundEven (x / u)) * u"
    using round64_binade [of e x] lo hi by (simp only: ax u_def)
  have "2 ^ 52 * u \<le> - x" using lo by (simp only: sc(2))
  then have "x \<le> - (2 ^ 52) * u" by simp
  then have "x / u \<le> of_int (- (2 ^ 52))" using sc(1) by (simp add: pos_divide_le_eq)
  then have "roundEven (x / u) \<le> roundEven (of_int (- (2 ^ 52)))" by (rule roundEven_mono)
  then have a: "roundEven (x / u) \<le> - (2 ^ 52)" by (simp only: roundEven_of_int)
  have "- x < 2 ^ 53 * u" using hi by (simp only: sc(3))
  then have "- (2 ^ 53) * u \<le> x" by simp
  then have "of_int (- (2 ^ 53)) \<le> x / u" using sc(1) by (simp add: pos_le_divide_eq)
  then have "roundEven (of_int (- (2 ^ 53))) \<le> roundEven (x / u)" by (rule roundEven_mono)
  then have b: "- (2 ^ 53) \<le> roundEven (x / u)" by (simp only: roundEven_of_int)
  from r a b show ?thesis by blast
qed

lemma round64_grid:
  fixes e n :: int
  defines "u \<equiv> (2::real) powr of_int (e - 52)"
  assumes lo: "2 ^ 52 \<le> \<bar>n\<bar>" and hi: "\<bar>n\<bar> \<le> 2 ^ 53"
  shows "round64 (of_int n * u) = of_int n * u"
proof -
  note sc = ulp_scale [of e, folded u_def]
  have ab: "\<bar>of_int n * u\<bar> = of_int \<bar>n\<bar> * u"
    using sc(1) by (simp add: abs_mult)
  show ?thesis
  proof (cases "\<bar>n\<bar> = 2 ^ 53")
    case True
    have a: "2 powr of_int (e + 1) \<le> \<bar>of_int n * u\<bar>"
      by (simp only: ab True sc(3)) simp
    have "\<bar>of_int n * u\<bar> < 2 ^ 54 * u"
      using sc(1) by (simp only: ab True) simp
    moreover have e2: "e + 1 + 1 = e + 2" by simp
    ultimately have b: "\<bar>of_int n * u\<bar> < 2 powr of_int (e + 1 + 1)"
      by (simp only: e2 sc(5))
    from True have nn: "n = 2 ^ 53 \<or> n = - (2 ^ 53)" by linarith
    have half: "of_int n * u / (2 * u) = of_int (n div 2)"
      using nn sc(1) by auto
    have "round64 (of_int n * u) = of_int (roundEven (of_int n * u / (2 * u))) * (2 * u)"
      using round64_binade [OF a b] by (simp only: sc(4))
    also have "\<dots> = of_int (n div 2) * (2 * u)"
      by (simp only: half roundEven_of_int)
    also have "\<dots> = of_int n * u"
      using nn by auto
    finally show ?thesis .
  next
    case False
    with hi have "\<bar>n\<bar> < 2 ^ 53" by simp
    then have "(of_int \<bar>n\<bar> :: real) < of_int (2 ^ 53)" by (simp only: of_int_less_iff)
    then have "of_int \<bar>n\<bar> * u < 2 ^ 53 * u" using sc(1) by simp
    then have b: "\<bar>of_int n * u\<bar> < 2 powr of_int (e + 1)" by (simp only: ab sc(3))
    have "(of_int (2 ^ 52) :: real) \<le> of_int \<bar>n\<bar>" using lo by (simp only: of_int_le_iff)
    then have "2 ^ 52 * u \<le> of_int \<bar>n\<bar> * u" using sc(1) by simp
    then have a: "2 powr of_int e \<le> \<bar>of_int n * u\<bar>" by (simp only: ab sc(2))
    have q: "of_int n * u / u = of_int n" using sc(1) by simp
    have "round64 (of_int n * u) = of_int (roundEven (of_int n * u / u)) * u"
      using round64_binade [OF a b] by (simp only: u_def)
    then show ?thesis by (simp only: q roundEven_of_int)
  qed
qed

lemma round64_idem: "round64 (round64 x) = round64 x"
proof -
  consider "x = 0" | "0 < x" | "x < 0" by linarith
  then show ?thesis
  proof cases
    case 1
    then show ?thesis by (simp add: round64_def)
  next
    case 2
    then have "x \<noteq> 0" and ax: "\<bar>x\<bar> = x" by simp_all
    from binade_bounds [OF this(1)]
    have "2 powr of_int \<lfloor>log 2 \<bar>x\<bar>\<rfloor> \<le> x" "x < 2 powr of_int (\<lfloor>log 2 \<bar>x\<bar>\<rfloor> + 1)"
      using ax by simp_all
    from round64_pos [OF this] obtain n where
      n: "round64 x = of_int n * 2 powr of_int (\<lfloor>log 2 \<bar>x\<bar>\<rfloor> - 52)" "2 ^ 52 \<le> n" "n \<le> 2 ^ 53"
      by blast
    from n(2,3) have "2 ^ 52 \<le> \<bar>n\<bar>" "\<bar>n\<bar> \<le> 2 ^ 53" by simp_all
    from round64_grid [OF this] show ?thesis by (simp only: n(1))
  next
    case 3
    then have "x \<noteq> 0" and ax: "\<bar>x\<bar> = - x" by simp_all
    from binade_bounds [OF this(1)]
    have "2 powr of_int \<lfloor>log 2 \<bar>x\<bar>\<rfloor> \<le> - x" "- x < 2 powr of_int (\<lfloor>log 2 \<bar>x\<bar>\<rfloor> + 1)"
      using ax by simp_all
    from round64_neg [OF this] obtain n where
      n: "round64 x = of_int n * 2 powr of_int (\<lfloor>log 2 \<bar>x\<bar>\<rfloor> - 52)"
         "- (2 ^ 53) \<le> n" "n \<le> - (2 ^ 52)"
      by blast
    from n(2,3) have "2 ^ 52 \<le> \<bar>n\<bar>" "\<bar>n\<bar> \<le> 2 ^ 53" by simp_all
    from round64_grid [OF this] show ?thesis by (simp only: n(1))
  qed
qed

lemma round64_zero: "round64 0 = 0"
  by (simp add: round64_def)

lemma round64_same_binade:
  fixes e :: int
  assumes x: "(2::real) powr of_int e \<le> \<bar>x\<bar>" "\<bar>x\<bar> < (2::real) powr of_int (e + 1)"
    and y: "(2::real) powr of_int e \<le> \<bar>y\<bar>" "\<bar>y\<bar> < (2::real) powr of_int (e + 1)"
    and le: "x \<le> y"
  shows "round64 x \<le> round64 y"
proof -
  define u where "u = (2::real) powr of_int (e - 52)"
  have u: "0 < u" by (simp add: u_def)
  have "x / u \<le> y / u" using le u by (simp add: divide_right_mono)
  then have "roundEven (x / u) \<le> roundEven (y / u)" by (rule roundEven_mono)
  then have "(of_int (roundEven (x / u)) :: real) \<le> of_int (roundEven (y / u))"
    by (simp only: of_int_le_iff)
  then have "of_int (roundEven (x / u)) * u \<le> of_int (roundEven (y / u)) * u"
    using u by (simp add: mult_right_mono)
  then show ?thesis
    by (simp only: round64_binade [OF x] round64_binade [OF y] u_def)
qed

lemma round64_mono_pos:
  assumes pos: "0 < x" and le: "x \<le> y"
  shows "round64 x \<le> round64 y"
proof -
  define ex where "ex = \<lfloor>log 2 \<bar>x\<bar>\<rfloor>"
  define ey where "ey = \<lfloor>log 2 \<bar>y\<bar>\<rfloor>"
  have ypos: "0 < y" using pos le by simp
  have ax: "\<bar>x\<bar> = x" and ay: "\<bar>y\<bar> = y" using pos ypos by simp_all
  have bx: "(2::real) powr of_int ex \<le> \<bar>x\<bar>" "\<bar>x\<bar> < (2::real) powr of_int (ex + 1)"
    using binade_bounds [of x] pos by (simp_all add: ex_def)
  have by': "(2::real) powr of_int ey \<le> \<bar>y\<bar>" "\<bar>y\<bar> < (2::real) powr of_int (ey + 1)"
    using binade_bounds [of y] ypos by (simp_all add: ey_def)
  have "log 2 \<bar>x\<bar> \<le> log 2 \<bar>y\<bar>" using pos le by (simp add: ax ay)
  then have exy: "ex \<le> ey" unfolding ex_def ey_def by (rule floor_mono)
  show ?thesis
  proof (cases "ex = ey")
    case True
    from bx by' show ?thesis unfolding True using le by (rule round64_same_binade)
  next
    case False
    with exy have "ex + 1 \<le> ey" by simp
    then have "(of_int (ex + 1) :: real) \<le> of_int ey" by (simp only: of_int_le_iff)
    then have step: "(2::real) powr of_int (ex + 1) \<le> (2::real) powr of_int ey"
      by (rule powr_mono) simp
    from round64_pos [of ex x] bx ax obtain n where
      n: "round64 x = of_int n * (2::real) powr of_int (ex - 52)" "n \<le> 2 ^ 53"
      by auto
    from round64_pos [of ey y] by' ay obtain m where
      m: "round64 y = of_int m * (2::real) powr of_int (ey - 52)" "2 ^ 52 \<le> m"
      by auto
    have "(of_int n :: real) \<le> of_int (2 ^ 53)" using n(2) by (simp only: of_int_le_iff)
    then have "of_int n * (2::real) powr of_int (ex - 52) \<le> 2 ^ 53 * (2::real) powr of_int (ex - 52)"
      by (simp add: mult_right_mono)
    then have a: "round64 x \<le> (2::real) powr of_int (ex + 1)"
      by (simp only: n(1) ulp_scale(3) [of ex])
    have "(of_int (2 ^ 52) :: real) \<le> of_int m" using m(2) by (simp only: of_int_le_iff)
    then have "2 ^ 52 * (2::real) powr of_int (ey - 52) \<le> of_int m * (2::real) powr of_int (ey - 52)"
      by (simp add: mult_right_mono)
    then have b: "(2::real) powr of_int ey \<le> round64 y"
      by (simp only: m(1) ulp_scale(2) [of ey])
    from a step b show ?thesis by linarith
  qed
qed

lemma round64_mono_neg:
  assumes neg: "y < 0" and le: "x \<le> y"
  shows "round64 x \<le> round64 y"
proof -
  define ex where "ex = \<lfloor>log 2 \<bar>x\<bar>\<rfloor>"
  define ey where "ey = \<lfloor>log 2 \<bar>y\<bar>\<rfloor>"
  have xneg: "x < 0" using neg le by simp
  have ax: "\<bar>x\<bar> = - x" and ay: "\<bar>y\<bar> = - y" using neg xneg by simp_all
  have bx: "(2::real) powr of_int ex \<le> \<bar>x\<bar>" "\<bar>x\<bar> < (2::real) powr of_int (ex + 1)"
    using binade_bounds [of x] xneg by (simp_all add: ex_def)
  have by': "(2::real) powr of_int ey \<le> \<bar>y\<bar>" "\<bar>y\<bar> < (2::real) powr of_int (ey + 1)"
    using binade_bounds [of y] neg by (simp_all add: ey_def)
  have "log 2 \<bar>y\<bar> \<le> log 2 \<bar>x\<bar>" using neg le by (simp add: ax ay)
  then have eyx: "ey \<le> ex" unfolding ex_def ey_def by (rule floor_mono)
  show ?thesis
  proof (cases "ex = ey")
    case True
    from bx by' show ?thesis unfolding True using le by (rule round64_same_binade)
  next
    case False
    with eyx have "ey + 1 \<le> ex" by simp
    then have "(of_int (ey + 1) :: real) \<le> of_int ex" by (simp only: of_int_le_iff)
    then have step: "(2::real) powr of_int (ey + 1) \<le> (2::real) powr of_int ex"
      by (rule powr_mono) simp
    from round64_neg [of ex x] bx ax obtain n where
      n: "round64 x = of_int n * (2::real) powr of_int (ex - 52)" "n \<le> - (2 ^ 52)"
      by auto
    from round64_neg [of ey y] by' ay obtain m where
      m: "round64 y = of_int m * (2::real) powr of_int (ey - 52)" "- (2 ^ 53) \<le> m"
      by auto
    have "(of_int n :: real) \<le> of_int (- (2 ^ 52))" using n(2) by (simp only: of_int_le_iff)
    then have "of_int n * (2::real) powr of_int (ex - 52) \<le> - (2 ^ 52 * (2::real) powr of_int (ex - 52))"
      using mult_right_mono [of "of_int n" "of_int (- (2 ^ 52))" "(2::real) powr of_int (ex - 52)"]
      by simp
    then have a: "round64 x \<le> - ((2::real) powr of_int ex)"
      by (simp only: n(1) ulp_scale(2) [of ex])
    have "(of_int (- (2 ^ 53)) :: real) \<le> of_int m" using m(2) by (simp only: of_int_le_iff)
    then have "- (2 ^ 53 * (2::real) powr of_int (ey - 52)) \<le> of_int m * (2::real) powr of_int (ey - 52)"
      using mult_right_mono [of "of_int (- (2 ^ 53))" "of_int m" "(2::real) powr of_int (ey - 52)"]
      by simp
    then have b: "- ((2::real) powr of_int (ey + 1)) \<le> round64 y"
      by (simp only: m(1) ulp_scale(3) [of ey])
    from a step b show ?thesis by linarith
  qed
qed

lemma round64_nonneg:
  assumes "0 \<le> x"
  shows "0 \<le> round64 x"
proof (cases "x = 0")
  case True
  then show ?thesis by (simp add: round64_zero)
next
  case False
  with assms have pos: "0 < x" by simp
  then have ax: "\<bar>x\<bar> = x" by simp
  from binade_bounds [OF False]
  have "(2::real) powr of_int \<lfloor>log 2 \<bar>x\<bar>\<rfloor> \<le> x" "x < (2::real) powr of_int (\<lfloor>log 2 \<bar>x\<bar>\<rfloor> + 1)"
    using ax by simp_all
  from round64_pos [OF this] obtain n where
    n: "round64 x = of_int n * (2::real) powr of_int (\<lfloor>log 2 \<bar>x\<bar>\<rfloor> - 52)" "2 ^ 52 \<le> n"
    by blast
  from n(2) have "0 \<le> n" by simp
  then have "(0::real) \<le> of_int n" by simp
  then have "0 \<le> of_int n * (2::real) powr of_int (\<lfloor>log 2 \<bar>x\<bar>\<rfloor> - 52)"
    by (rule mult_nonneg_nonneg) simp
  then show ?thesis by (simp only: n(1))
qed

lemma round64_nonpos:
  assumes "x \<le> 0"
  shows "round64 x \<le> 0"
proof (cases "x = 0")
  case True
  then show ?thesis by (simp add: round64_zero)
next
  case False
  with assms have neg: "x < 0" by simp
  then have ax: "\<bar>x\<bar> = - x" by simp
  from binade_bounds [OF False]
  have "(2::real) powr of_int \<lfloor>log 2 \<bar>x\<bar>\<rfloor> \<le> - x" "- x < (2::real) powr of_int (\<lfloor>log 2 \<bar>x\<bar>\<rfloor> + 1)"
    using ax by simp_all
  from round64_neg [OF this] obtain n where
    n: "round64 x = of_int n * (2::real) powr of_int (\<lfloor>log 2 \<bar>x\<bar>\<rfloor> - 52)" "n \<le> - (2 ^ 52)"
    by blast
  from n(2) have "n \<le> 0" by simp
  then have "(of_int n :: real) \<le> 0" by simp
  then have "of_int n * (2::real) powr of_int (\<lfloor>log 2 \<bar>x\<bar>\<rfloor> - 52) \<le> 0"
    by (rule mult_nonpos_nonneg) simp
  then show ?thesis by (simp only: n(1))
qed

lemma mono_round64: "mono round64"
proof (rule monoI)
  fix x y :: real
  assume le: "x \<le> y"
  consider "0 < x" | "y < 0" | "x \<le> 0" "0 \<le> y" by linarith
  then show "round64 x \<le> round64 y"
  proof cases
    case 1
    then show ?thesis using le by (rule round64_mono_pos)
  next
    case 2
    then show ?thesis using le by (rule round64_mono_neg)
  next
    case 3
    from round64_nonpos [OF 3(1)] round64_nonneg [OF 3(2)] show ?thesis by linarith
  qed
qed

lemma mono_round64_exp: "mono (\<lambda>x. round64 (exp x))"
proof (rule monoI)
  fix x y :: real
  assume "x \<le> y"
  then have "exp x \<le> exp y" by simp
  then show "round64 (exp x) \<le> round64 (exp y)" by (rule monoD [OF mono_round64])
qed

lemma round64_exp_zero: "round64 (exp 0) = 1"
  by (simp only: exp_zero round64_one)

lemma round64_minus_26: "round64 (- 4 - 22) = - 4 - 22"
  using round64_binade [of 4 "- 4 - 22"]
  by (simp add: powr_minus powr_numeral roundEven_def Let_def field_simps)

lemma round64_minus_4: "round64 (- 4) = - 4"
  using round64_binade [of 2 "- 4"]
  by (simp add: powr_minus powr_numeral roundEven_def Let_def field_simps)

subsection \<open>Per-drink evaluation\<close>

text \<open>
  Claim C1. For every drink and every wait time the evaluation is dispatched on the
  category. A straight-up drink gets the temperature \<open>tempAt wait startTemp 22 120\<close> and
  one penalty of magnitude \<open>(temperature / 10) * 12\<close> exactly when that temperature is above
  0, none otherwise. A drink on the rocks gets the dilution of its ice surface (standard
  when there is none) and always exactly one penalty, of magnitude
  \<open>\<bar>dilution - ideal\<bar> * 80\<close> with the ideal 0.33 when the drink has none; its temperature
  stays the starting temperature and enters no penalty. A non-chilled drink gets the
  temperature \<open>tempAt wait startTemp 22 240\<close> and one penalty of magnitude
  \<open>(temperature - 10) * 2\<close> exactly when that temperature is above 12, none otherwise.
\<close>

theorem evaluateDrink_dispatch:
  "(category d = STRAIGHT_UP \<longrightarrow>
      ev_tempC (evaluateDrink d w) = tempAt w (startTempC d) 22 120 \<and>
      ev_penalties (evaluateDrink d w) =
        (if tempAt w (startTempC d) 22 120 > 0
         then [\<lparr>label = WarmStraightUp, pen_value = (tempAt w (startTempC d) 22 120 / 10) * 12\<rparr>]
         else []))
   \<and> (category d = ON_THE_ROCKS \<longrightarrow>
      ev_dilution (evaluateDrink d w) =
        Some (dilutionAt w (Some (nullish (iceSurface d) Standard))) \<and>
      ev_penalties (evaluateDrink d w) =
        [\<lparr>label = DilutionOffTarget,
          pen_value = \<bar>dilutionAt w (Some (nullish (iceSurface d) Standard))
                        - nullish (idealDilution d) 0.33\<bar> * 80\<rparr>] \<and>
      ev_tempC (evaluateDrink d w) = startTempC d)
   \<and> (category d = NON_CHILLED \<longrightarrow>
      ev_tempC (evaluateDrink d w) = tempAt w (startTempC d) 22 240 \<and>
      ev_penalties (evaluateDrink d w) =
        (if tempAt w (startTempC d) 22 240 > 12
         then [\<lparr>label = LostChill, pen_value = (tempAt w (startTempC d) 22 240 - 10) * 2\<rparr>]
         else []))"
  by (cases "category d") (simp_all add: evaluateDrink_def nullish_def Let_def)

text \<open>
  The Martini after 120 seconds (penalised), the Old Fashioned after 60 seconds, and the
  Beer served at once (not penalised).
\<close>

theorem evaluateDrink_dispatch_witness:
  "category (generateOrders ! 0) = STRAIGHT_UP
   \<and> ev_penalties (evaluateDrink (generateOrders ! 0) 120) =
       [\<lparr>label = WarmStraightUp, pen_value = ((22 - 26 * exp (- 1)) / 10) * 12\<rparr>]
   \<and> category (generateOrders ! 2) = ON_THE_ROCKS
   \<and> ev_dilution (evaluateDrink (generateOrders ! 2) 60) = Some 0.24
   \<and> ev_penalties (evaluateDrink (generateOrders ! 2) 60) =
       [\<lparr>label = DilutionOffTarget, pen_value = 7.2\<rparr>]
   \<and> category (generateOrders ! 5) = NON_CHILLED
   \<and> ev_tempC (evaluateDrink (generateOrders ! 5) 0) = 6
   \<and> ev_penalties (evaluateDrink (generateOrders ! 5) 0) = []"
  using evaluateDrink_dispatch [of "generateOrders ! 0" 120]
        evaluateDrink_dispatch [of "generateOrders ! 2" 60]
        evaluateDrink_dispatch [of "generateOrders ! 5" 0]
        exp_minus_one_le_half
  by (simp add: generateOrders_def tempAt_def dilutionAt_def nullish_def)

subsection \<open>Physical model\<close>

text \<open>
  Claim C5, amended. For every wait time and every ice-surface class, \<open>dilutionAt\<close> is the
  wait time times the rate of the class (0.004 large, 0.0055 standard, 0.008 crushed; an
  absent class counts as standard), clamped to the interval from 0 to 0.6; at wait 0 it is
  0 for every class. Large ice never dilutes more than crushed ice; it dilutes strictly
  less for positive wait times below 150 seconds, and from 150 seconds on both classes are
  clamped to 0.6.
\<close>

theorem dilutionAt_clamped:
  "dilutionAt w (Some c) = min 0.6 (max 0 (w * iceRate c))
   \<and> dilutionAt w None = min 0.6 (max 0 (w * iceRate Standard))
   \<and> 0 \<le> dilutionAt w sf \<and> dilutionAt w sf \<le> 0.6
   \<and> dilutionAt 0 sf = 0
   \<and> dilutionAt w (Some Large) \<le> dilutionAt w (Some Crushed)
   \<and> (0 < w \<and> w < 150 \<longrightarrow> dilutionAt w (Some Large) < dilutionAt w (Some Crushed))
   \<and> (150 \<le> w \<longrightarrow> dilutionAt w (Some Large) = 0.6 \<and> dilutionAt w (Some Crushed) = 0.6)"
proof -
  have a: "dilutionAt w (Some c) = min 0.6 (max 0 (w * iceRate c))"
    by (cases c) (simp_all add: dilutionAt_def)
  have b: "dilutionAt w None = min 0.6 (max 0 (w * iceRate Standard))"
    by (simp add: dilutionAt_def)
  have c: "0 \<le> dilutionAt w sf \<and> dilutionAt w sf \<le> 0.6"
    by (simp add: dilutionAt_def Let_def)
  have d: "dilutionAt 0 sf = 0"
    by (simp add: dilutionAt_def Let_def)
  have e: "dilutionAt w (Some Large) \<le> dilutionAt w (Some Crushed)"
    by (auto simp add: dilutionAt_def Let_def min_def max_def)
  have f: "0 < w \<and> w < 150 \<longrightarrow> dilutionAt w (Some Large) < dilutionAt w (Some Crushed)"
    by (auto simp add: dilutionAt_def Let_def min_def max_def)
  have g: "150 \<le> w \<longrightarrow> dilutionAt w (Some Large) = 0.6 \<and> dilutionAt w (Some Crushed) = 0.6"
    by (auto simp add: dilutionAt_def Let_def min_def max_def)
  from a b c d e f g show ?thesis by blast
qed

theorem dilutionAt_clamped_witness:
  "(0::real) < 60 \<and> (60::real) < 150
   \<and> dilutionAt 60 (Some Large) = 0.24 \<and> dilutionAt 60 (Some Crushed) = 0.48
   \<and> dilutionAt 60 (Some Large) < dilutionAt 60 (Some Crushed)
   \<and> (150::real) \<le> 200 \<and> dilutionAt 200 (Some Large) = 0.6 \<and> dilutionAt 200 (Some Crushed) = 0.6"
  using dilutionAt_clamped [of 60 Large None] dilutionAt_clamped [of 200 Large None]
        dilutionAt_clamped [of 60 Crushed None]
  by simp

text \<open>
  The claim as first stated asks for strictly lower dilution with large ice at every
  positive wait time. At 150 seconds both classes have reached the clamp.
\<close>

theorem dilutionAt_large_crushed_counterexample:
  "(0::real) < 150 \<and> \<not> dilutionAt 150 (Some Large) < dilutionAt 150 (Some Crushed)"
  by (simp add: dilutionAt_def)

text \<open>
  Claim C6, amended. Let the time constant be positive, and let the arithmetic round
  monotonically and leave 0 and every rounded number as it is, with a monotone exponential
  that is 1 at 0; exact arithmetic is one such arithmetic, and the rounding of the
  program's numbers with a correctly rounded exponential is another. When the starting
  temperature is below ambient, \<open>tempAt\<close> is monotonically non-decreasing in the wait
  time on the nonnegative waits: the drink warms toward ambient. At wait 0, \<open>tempAt\<close> is
  the rounded sum of ambient and the rounded difference of the starting temperature and
  ambient; this is the starting temperature whenever that difference is a number of the
  program and the starting temperature is one.
\<close>

theorem tempAt_warms_toward_ambient:
  assumes "0 < tau" and "mono fl" and "fl 0 = 0" and "\<forall>x. fl (fl x) = fl x"
    and "mono ex" and "ex 0 = 1"
  shows "(T0 < ambient \<and> 0 \<le> w1 \<and> w1 \<le> w2 \<longrightarrow>
            tempAtR fl ex w1 T0 ambient tau \<le> tempAtR fl ex w2 T0 ambient tau
            \<and> tempAt w1 T0 ambient tau \<le> tempAt w2 T0 ambient tau)
     \<and> tempAtR fl ex 0 T0 ambient tau = fl (ambient + fl (T0 - ambient))
     \<and> (fl (T0 - ambient) = T0 - ambient \<and> fl T0 = T0 \<longrightarrow>
          tempAtR fl ex 0 T0 ambient tau = T0)"
proof -
  have rounded: "tempAtR fl ex w1 T0 ambient tau \<le> tempAtR fl ex w2 T0 ambient tau"
    if "T0 < ambient" "w1 \<le> w2"
    using assms(1,2,3,5) that by (rule tempAtR_mono)
  have exact: "tempAt w1 T0 ambient tau \<le> tempAt w2 T0 ambient tau"
    if "T0 < ambient" "w1 \<le> w2"
  proof -
    have "tempAtR (\<lambda>x. x) exp w1 T0 ambient tau \<le> tempAtR (\<lambda>x. x) exp w2 T0 ambient tau"
      using assms(1) mono_exact(1) refl mono_exact(2) that by (rule tempAtR_mono)
    then show ?thesis by (simp only: tempAtR_exact)
  qed
  have zero: "tempAtR fl ex 0 T0 ambient tau = fl (ambient + fl (T0 - ambient))"
    using assms(3,4,6) by (rule tempAtR_zero)
  have same: "tempAtR fl ex 0 T0 ambient tau = T0"
    if a: "fl (T0 - ambient) = T0 - ambient" and b: "fl T0 = T0"
  proof -
    have "ambient + (T0 - ambient) = T0" by simp
    then show ?thesis by (simp only: zero a b)
  qed
  from rounded exact zero same show ?thesis by blast
qed

text \<open>
  The Martini (start -4, ambient 22, time constant 120) at wait 0 and after 120 seconds,
  in exact arithmetic and in the arithmetic of the program's numbers.
\<close>

theorem tempAt_warms_toward_ambient_witness:
  "(0::real) < 120 \<and> (-4::real) < 22 \<and> (0::real) \<le> 0 \<and> (0::real) \<le> 120
   \<and> mono (\<lambda>x::real. x) \<and> mono (exp :: real \<Rightarrow> real) \<and> exp (0::real) = 1
   \<and> tempAtR (\<lambda>x. x) exp 0 (-4) 22 120 \<le> tempAtR (\<lambda>x. x) exp 120 (-4) 22 120
   \<and> tempAt 0 (-4) 22 120 \<le> tempAt 120 (-4) 22 120
   \<and> tempAtR (\<lambda>x. x) exp 0 (-4) 22 120 = -4
   \<and> mono round64 \<and> round64 0 = 0 \<and> (\<forall>x. round64 (round64 x) = round64 x)
   \<and> mono (\<lambda>x. round64 (exp x)) \<and> round64 (exp 0) = 1
   \<and> round64 (- 4 - 22) = - 4 - 22 \<and> round64 (- 4) = - 4
   \<and> tempAtR round64 (\<lambda>x. round64 (exp x)) 0 (-4) 22 120
        \<le> tempAtR round64 (\<lambda>x. round64 (exp x)) 120 (-4) 22 120
   \<and> tempAtR round64 (\<lambda>x. round64 (exp x)) 0 (-4) 22 120 = -4"
proof -
  have h: "(0::real) < 120" "(\<lambda>x::real. x) 0 = 0" "\<forall>x::real. (\<lambda>x. x) ((\<lambda>x. x) x) = (\<lambda>x. x) x"
    "exp (0::real) = 1"
    by simp_all
  have g: "(-4::real) < 22 \<and> (0::real) \<le> 0 \<and> (0::real) \<le> 120" by simp
  have k: "(\<lambda>x::real. x) (- 4 - 22) = - 4 - 22 \<and> (\<lambda>x::real. x) (- 4) = - 4" by simp
  have idem: "\<forall>x. round64 (round64 x) = round64 x" using round64_idem by blast
  have k64: "round64 (- 4 - 22) = - 4 - 22 \<and> round64 (- 4) = - 4"
    using round64_minus_26 round64_minus_4 by blast
  note exact = tempAt_warms_toward_ambient
    [OF h(1) mono_exact(1) h(2) h(3) mono_exact(2) h(4), of "-4" 22 0 120]
  note ieee = tempAt_warms_toward_ambient
    [OF h(1) mono_round64 round64_zero idem mono_round64_exp round64_exp_zero, of "-4" 22 0 120]
  from exact g k have e: "tempAtR (\<lambda>x. x) exp 0 (-4) 22 120 \<le> tempAtR (\<lambda>x. x) exp 120 (-4) 22 120"
    "tempAt 0 (-4) 22 120 \<le> tempAt 120 (-4) 22 120"
    "tempAtR (\<lambda>x. x) exp 0 (-4) 22 120 = -4"
    by blast+
  from ieee g k64 have i: "tempAtR round64 (\<lambda>x. round64 (exp x)) 0 (-4) 22 120
        \<le> tempAtR round64 (\<lambda>x. round64 (exp x)) 120 (-4) 22 120"
    "tempAtR round64 (\<lambda>x. round64 (exp x)) 0 (-4) 22 120 = -4"
    by blast+
  from h(1,4) g mono_exact e mono_round64 round64_zero idem mono_round64_exp round64_exp_zero
    k64 i
  show ?thesis by blast
qed

text \<open>
  The claim as first stated has the temperature non-increasing: the Martini is warmer
  after 120 seconds than at the start. It also has \<open>tempAt\<close> at wait 0 equal to every
  starting temperature: for the starting temperature 0.1 (as a number of the program) and
  ambient 22, the difference is rounded and the result is 0.10000000000000142.
\<close>

theorem tempAt_non_increasing_counterexample:
  "(0::real) < 120 \<and> (-4::real) < 22 \<and> (0::real) \<le> 0 \<and> (0::real) \<le> 120
   \<and> \<not> tempAt 120 (-4) 22 120 \<le> tempAt 0 (-4) 22 120
   \<and> round64 (1 / 10) = 7205759403792794 / 2 ^ 56
   \<and> tempAtR round64 (\<lambda>x. round64 (exp x)) 0 (round64 (1 / 10)) 22 120
        = 7205759403792896 / 2 ^ 56
   \<and> tempAtR round64 (\<lambda>x. round64 (exp x)) 0 (round64 (1 / 10)) 22 120 \<noteq> round64 (1 / 10)"
proof -
  have a: "\<not> tempAt 120 (-4) 22 120 \<le> tempAt 0 (-4) 22 120"
    by (simp add: tempAt_def)
  have b: "(7205759403792896 :: real) / 2 ^ 56 \<noteq> 7205759403792794 / 2 ^ 56"
    by simp
  have c: "tempAtR round64 (\<lambda>x. round64 (exp x)) 0 (round64 (1 / 10)) 22 120
             \<noteq> round64 (1 / 10)"
    unfolding tempAtR_tenth unfolding round64_tenth by (rule b)
  have d: "(0::real) < 120 \<and> (-4::real) < 22 \<and> (0::real) \<le> 0 \<and> (0::real) \<le> 120"
    by simp
  from a c d round64_tenth tempAtR_tenth show ?thesis by blast
qed

subsection \<open>Scoring\<close>

text \<open>
  Claim C2. \<open>scoreRound\<close> starts from 100 points, deducts the window penalty and the
  ordering penalty, each with a breakdown entry of its own, then subtracts every penalty
  magnitude of every finished drink. The per-drink penalties are not itemised in the
  breakdown: it holds the window entry and the ordering entry at most. For every input,
  whatever the magnitude of the penalties, the returned score lies between 0 and 100.
\<close>

theorem scoreRound_total_and_range:
  "score (scoreRound fin w q) =
     max 0 (min 100 (100 - windowPenalty w
                         - real (orderPenalty recommendedOrder q) - penaltyTotal fin))
   \<and> breakdown (scoreRound fin w q) =
       (if w > 60 then [\<lparr>label = LongWindow, pen_value = (w - 60) * 0.2\<rparr>] else [])
       @ (if orderPenalty recommendedOrder q > 0
          then [\<lparr>label = BadCategoryOrder, pen_value = real (orderPenalty recommendedOrder q)\<rparr>]
          else [])
   \<and> (\<forall>p \<in> set (breakdown (scoreRound fin w q)).
         label p = LongWindow \<or> label p = BadCategoryOrder)
   \<and> 0 \<le> score (scoreRound fin w q) \<and> score (scoreRound fin w q) \<le> 100"
proof -
  have "\<forall>p \<in> set (breakdown (scoreRound fin w q)).
          label p = LongWindow \<or> label p = BadCategoryOrder"
    by (auto simp: scoreRound_breakdown)
  moreover have "0 \<le> score (scoreRound fin w q) \<and> score (scoreRound fin w q) \<le> 100"
    by (simp add: scoreRound_score)
  ultimately show ?thesis
    using scoreRound_score [of fin w q] scoreRound_breakdown [of fin w q] by blast
qed

text \<open>
  The Old Fashioned followed by the Whiskey Highball, in the recommended order with a
  short window, and in the reversed order with a window of 1000 seconds.
\<close>

theorem scoreRound_total_and_range_witness:
  "score (scoreRound (finished (simulateFinish [generateOrders ! 2, generateOrders ! 3])) 8
            [NON_CHILLED, ON_THE_ROCKS, STRAIGHT_UP]) = 51.6
   \<and> breakdown (scoreRound (finished (simulateFinish [generateOrders ! 2, generateOrders ! 3])) 8
            [NON_CHILLED, ON_THE_ROCKS, STRAIGHT_UP]) = []
   \<and> score (scoreRound (finished (simulateFinish [generateOrders ! 2, generateOrders ! 3])) 1000
            [STRAIGHT_UP, ON_THE_ROCKS, NON_CHILLED]) = 0
   \<and> breakdown (scoreRound (finished (simulateFinish [generateOrders ! 2, generateOrders ! 3])) 1000
            [STRAIGHT_UP, ON_THE_ROCKS, NON_CHILLED]) =
       [\<lparr>label = LongWindow, pen_value = 188\<rparr>, \<lparr>label = BadCategoryOrder, pen_value = 18\<rparr>]"
  using scoreRound_total_and_range
          [of "finished (simulateFinish [generateOrders ! 2, generateOrders ! 3])" 8
              "[NON_CHILLED, ON_THE_ROCKS, STRAIGHT_UP]"]
        scoreRound_total_and_range
          [of "finished (simulateFinish [generateOrders ! 2, generateOrders ! 3])" 1000
              "[STRAIGHT_UP, ON_THE_ROCKS, NON_CHILLED]"]
  by (simp add: penaltyTotal_two_on_the_rocks orderPenalty_inversions windowPenalty_def)

text \<open>
  Claim C3. In \<open>scoreRound\<close> the ordering penalty is 6 times the number of category-pair
  inversions of the chosen queue relative to the recommended order (non-chilled, on the
  rocks, straight-up). It is 0, and its breakdown entry is left out, if and only if the
  categories of the chosen queue appear in the recommended relative order; otherwise the
  entry is there once, with that magnitude, and the magnitude is deducted from the score.
\<close>

theorem orderPenalty_counts_inversions:
  "orderPenalty recommendedOrder chosen = 6 * inversions chosen
   \<and> (orderPenalty recommendedOrder chosen = 0
        \<longleftrightarrow> sorted_wrt (\<lambda>a b. recoRank a \<le> recoRank b) chosen)
   \<and> ((\<exists>p \<in> set (breakdown (scoreRound fin w chosen)). label p = BadCategoryOrder)
        \<longleftrightarrow> \<not> sorted_wrt (\<lambda>a b. recoRank a \<le> recoRank b) chosen)
   \<and> (\<not> sorted_wrt (\<lambda>a b. recoRank a \<le> recoRank b) chosen \<longrightarrow>
        filter (\<lambda>p. label p = BadCategoryOrder) (breakdown (scoreRound fin w chosen)) =
          [\<lparr>label = BadCategoryOrder, pen_value = 6 * real (inversions chosen)\<rparr>])
   \<and> score (scoreRound fin w chosen) =
       max 0 (min 100 (100 - windowPenalty w - 6 * real (inversions chosen) - penaltyTotal fin))"
proof -
  have eq: "orderPenalty recommendedOrder chosen = 6 * inversions chosen"
    by (rule orderPenalty_inversions)
  have zero: "orderPenalty recommendedOrder chosen = 0
        \<longleftrightarrow> sorted_wrt (\<lambda>a b. recoRank a \<le> recoRank b) chosen"
    by (simp add: eq inversions_zero)
  have entry: "(\<exists>p \<in> set (breakdown (scoreRound fin w chosen)). label p = BadCategoryOrder)
        \<longleftrightarrow> \<not> sorted_wrt (\<lambda>a b. recoRank a \<le> recoRank b) chosen"
    using zero by (auto simp: scoreRound_breakdown)
  have val: "filter (\<lambda>p. label p = BadCategoryOrder) (breakdown (scoreRound fin w chosen)) =
          [\<lparr>label = BadCategoryOrder, pen_value = 6 * real (inversions chosen)\<rparr>]"
    if "\<not> sorted_wrt (\<lambda>a b. recoRank a \<le> recoRank b) chosen"
    using that zero by (auto simp: scoreRound_breakdown eq)
  have sc: "score (scoreRound fin w chosen) =
       max 0 (min 100 (100 - windowPenalty w - 6 * real (inversions chosen) - penaltyTotal fin))"
    by (simp add: scoreRound_score eq)
  from eq zero entry val sc show ?thesis by blast
qed

theorem orderPenalty_counts_inversions_witness:
  "sorted_wrt (\<lambda>a b. recoRank a \<le> recoRank b) [NON_CHILLED, ON_THE_ROCKS, STRAIGHT_UP]
   \<and> orderPenalty recommendedOrder [NON_CHILLED, ON_THE_ROCKS, STRAIGHT_UP] = 0
   \<and> breakdown (scoreRound [] 0 [NON_CHILLED, ON_THE_ROCKS, STRAIGHT_UP]) = []
   \<and> \<not> sorted_wrt (\<lambda>a b. recoRank a \<le> recoRank b) [STRAIGHT_UP, NON_CHILLED, ON_THE_ROCKS]
   \<and> orderPenalty recommendedOrder [STRAIGHT_UP, NON_CHILLED, ON_THE_ROCKS] = 12
   \<and> filter (\<lambda>p. label p = BadCategoryOrder)
        (breakdown (scoreRound [] 0 [STRAIGHT_UP, NON_CHILLED, ON_THE_ROCKS])) =
       [\<lparr>label = BadCategoryOrder, pen_value = 12\<rparr>]
   \<and> score (scoreRound [] 0 [STRAIGHT_UP, NON_CHILLED, ON_THE_ROCKS]) = 88"
  using orderPenalty_counts_inversions [of "[NON_CHILLED, ON_THE_ROCKS, STRAIGHT_UP]" "[]" 0]
        orderPenalty_counts_inversions [of "[STRAIGHT_UP, NON_CHILLED, ON_THE_ROCKS]" "[]" 0]
  by (simp add: scoreRound_breakdown penaltyTotal_def windowPenalty_def)

text \<open>
  Claim C4. In \<open>scoreRound\<close> a window entry of magnitude \<open>(windowSeconds - 60) * 0.2\<close> is
  added to the breakdown and deducted if and only if the window is longer than 60 seconds.
  For every window of at most 60 seconds, 60 itself included, there is no window entry and
  nothing is deducted for the window.
\<close>

theorem window_penalty_exclusive:
  "((\<exists>p \<in> set (breakdown (scoreRound fin w q)). label p = LongWindow) \<longleftrightarrow> w > 60)
   \<and> (w > 60 \<longrightarrow>
        filter (\<lambda>p. label p = LongWindow) (breakdown (scoreRound fin w q)) =
          [\<lparr>label = LongWindow, pen_value = (w - 60) * 0.2\<rparr>]
        \<and> score (scoreRound fin w q) =
            max 0 (min 100 (100 - (w - 60) * 0.2
                                - real (orderPenalty recommendedOrder q) - penaltyTotal fin)))
   \<and> (w \<le> 60 \<longrightarrow>
        score (scoreRound fin w q) =
          max 0 (min 100 (100 - real (orderPenalty recommendedOrder q) - penaltyTotal fin)))"
  by (auto simp: scoreRound_breakdown scoreRound_score windowPenalty_def)

theorem window_penalty_exclusive_witness:
  "(60::real) \<le> 60
   \<and> breakdown (scoreRound [] 60 [NON_CHILLED, ON_THE_ROCKS, STRAIGHT_UP]) = []
   \<and> score (scoreRound [] 60 [NON_CHILLED, ON_THE_ROCKS, STRAIGHT_UP]) = 100
   \<and> (70::real) > 60
   \<and> filter (\<lambda>p. label p = LongWindow)
        (breakdown (scoreRound [] 70 [NON_CHILLED, ON_THE_ROCKS, STRAIGHT_UP])) =
       [\<lparr>label = LongWindow, pen_value = 2\<rparr>]
   \<and> score (scoreRound [] 70 [NON_CHILLED, ON_THE_ROCKS, STRAIGHT_UP]) = 98"
  using window_penalty_exclusive [of "[]" 60 "[NON_CHILLED, ON_THE_ROCKS, STRAIGHT_UP]"]
        window_penalty_exclusive [of "[]" 70 "[NON_CHILLED, ON_THE_ROCKS, STRAIGHT_UP]"]
  by (simp add: scoreRound_breakdown penaltyTotal_def orderPenalty_inversions)

subsection \<open>The finish action\<close>

text \<open>
  Claim C8. The simulated clock is monotonically non-decreasing. On a round state whose
  remaining drinks all have nonnegative finish durations, a finish action for an id among
  the remaining drinks moves exactly one drink, one with that id, from the remaining drinks
  to the end of the timeline, and advances the clock by exactly that drink's finish
  duration. The clock after a finish action is at least the clock before it, and so it is
  after any sequence of finish actions. The running clock of \<open>simulateFinish\<close> behaves the
  same way: the finish times it records never decrease, and its total is the sum of the
  finish durations.
\<close>

theorem finish_action_clock_monotone:
  assumes "\<forall>d \<in> set (remaining s). 0 \<le> baseFinishSec d"
  shows "(i \<in> drink_id ` set (remaining s) \<longrightarrow>
           (\<exists>k f. k < length (remaining s) \<and> drink_id (remaining s ! k) = i
              \<and> remaining (finishById i s) = take k (remaining s) @ drop (Suc k) (remaining s)
              \<and> timeline (finishById i s) = timeline s @ [f]
              \<and> drink f = remaining s ! k
              \<and> waitSec f = clock s
              \<and> finishedAt f = clock s + baseFinishSec (remaining s ! k)
              \<and> clock (finishById i s) = clock s + baseFinishSec (remaining s ! k)))
     \<and> clock s \<le> clock (finishById i s)
     \<and> clock s \<le> clock (finishAll ids s)
     \<and> ((\<forall>d \<in> set ds. 0 \<le> baseFinishSec d) \<longrightarrow>
          sorted (map finishedAt (finished (simulateFinish ds)))
          \<and> totalSec (simulateFinish ds) = sum_list (map baseFinishSec ds))"
proof -
  have "\<exists>k f. k < length (remaining s) \<and> drink_id (remaining s ! k) = i
              \<and> remaining (finishById i s) = take k (remaining s) @ drop (Suc k) (remaining s)
              \<and> timeline (finishById i s) = timeline s @ [f]
              \<and> drink f = remaining s ! k
              \<and> waitSec f = clock s
              \<and> finishedAt f = clock s + baseFinishSec (remaining s ! k)
              \<and> clock (finishById i s) = clock s + baseFinishSec (remaining s ! k)"
    if "i \<in> drink_id ` set (remaining s)"
  proof -
    from that have "findIndex (\<lambda>d. drink_id d = i) (remaining s) \<noteq> None"
      by (auto simp: findIndex_None)
    then obtain k where k: "findIndex (\<lambda>d. drink_id d = i) (remaining s) = Some k"
      by auto
    from findIndex_Some [OF k] finishById_found [OF k] show ?thesis
      by (intro exI [of _ k]) simp
  qed
  moreover have "clock s \<le> clock (finishById i s)"
    using assms by (rule finishById_clock_le)
  moreover have "clock s \<le> clock (finishAll ids s)"
    using assms by (rule finishAll_clock_le)
  moreover have "(\<forall>d \<in> set ds. 0 \<le> baseFinishSec d) \<longrightarrow>
          sorted (map finishedAt (finished (simulateFinish ds)))
          \<and> totalSec (simulateFinish ds) = sum_list (map baseFinishSec ds)"
    using simulateFinish_clock [of ds] by blast
  ultimately show ?thesis by blast
qed

text \<open>
  The Old Fashioned and the Whiskey Highball remain; the Highball is finished first. The
  sequence also holds an id that no drink has.
\<close>

theorem finish_action_clock_monotone_witness:
  "0 \<le> baseFinishSec (generateOrders ! 2) \<and> 0 \<le> baseFinishSec (generateOrders ! 3)
   \<and> ''4'' \<in> drink_id ` set [generateOrders ! 2, generateOrders ! 3]
   \<and> remaining (finishById ''4''
        \<lparr>phase = RUNNING, orders = generateOrders, queue = recommendedOrder, clock = 0,
         remaining = [generateOrders ! 2, generateOrders ! 3], timeline = [], result = None\<rparr>)
       = [generateOrders ! 2]
   \<and> clock (finishById ''4''
        \<lparr>phase = RUNNING, orders = generateOrders, queue = recommendedOrder, clock = 0,
         remaining = [generateOrders ! 2, generateOrders ! 3], timeline = [], result = None\<rparr>)
       = 8
   \<and> clock (finishAll [''4'', ''9'', ''3'']
        \<lparr>phase = RUNNING, orders = generateOrders, queue = recommendedOrder, clock = 0,
         remaining = [generateOrders ! 2, generateOrders ! 3], timeline = [], result = None\<rparr>)
       = 18
   \<and> map finishedAt (finished (simulateFinish [generateOrders ! 2, generateOrders ! 3]))
       = [10, 18]
   \<and> totalSec (simulateFinish [generateOrders ! 2, generateOrders ! 3]) = 18"
proof -
  have a: "\<forall>d \<in> set [generateOrders ! 2, generateOrders ! 3]. 0 \<le> baseFinishSec d"
    by (simp add: generateOrders_def)
  have b: "map finishedAt (finished (simulateFinish [generateOrders ! 2, generateOrders ! 3]))
       = [10, 18]"
    by (simp add: simulate_two_on_the_rocks)
  show ?thesis
    using a b finish_action_clock_monotone
      [of "\<lparr>phase = RUNNING, orders = generateOrders, queue = recommendedOrder, clock = 0,
            remaining = [generateOrders ! 2, generateOrders ! 3], timeline = [], result = None\<rparr>"
          "''4''" "[''4'', ''9'', ''3'']" "[generateOrders ! 2, generateOrders ! 3]"]
    by (simp add: generateOrders_def finishAll_def finishById_def Let_def)
qed

text \<open>
  Claim C9. For every round state and every drink id that no remaining drink has, the
  finish action with that id is a no-op: the clock, the remaining drinks, the timeline, the
  result and every other state variable are unchanged, and nothing is reported.
\<close>

theorem finish_action_absent_id_noop:
  "i \<notin> drink_id ` set (remaining s) \<Longrightarrow> finishById i s = s"
proof -
  assume "i \<notin> drink_id ` set (remaining s)"
  then have "findIndex (\<lambda>d. drink_id d = i) (remaining s) = None"
    by (auto simp: findIndex_None)
  then show ?thesis by (rule finishById_absent)
qed

theorem finish_action_absent_id_noop_witness:
  "''8'' \<notin> drink_id ` set generateOrders
   \<and> finishById ''8'' \<lparr>phase = RUNNING, orders = generateOrders, queue = recommendedOrder,
                        clock = 0, remaining = generateOrders, timeline = [], result = None\<rparr>
     = \<lparr>phase = RUNNING, orders = generateOrders, queue = recommendedOrder,
        clock = 0, remaining = generateOrders, timeline = [], result = None\<rparr>"
proof -
  have a: "''8'' \<notin> drink_id ` set generateOrders"
    by (simp add: generateOrders_def)
  show ?thesis
    using a finish_action_absent_id_noop
      [of "''8''" "\<lparr>phase = RUNNING, orders = generateOrders, queue = recommendedOrder,
                     clock = 0, remaining = generateOrders, timeline = [], result = None\<rparr>"]
    by simp
qed

text \<open>
  Claim C10. For every drink and every wait time the per-drink evaluation gives at most
  one penalty entry: exactly one for a drink on the rocks, none or one for a straight-up or
  a non-chilled drink. The dilution of the finished drink is defined if and only if the
  drink is on the rocks, and for a drink on the rocks the serving temperature is the
  starting temperature. This holds for \<open>evaluateDrink\<close>, for every finished drink that
  \<open>simulateFinish\<close> returns, and for every finished drink that \<open>finishById\<close> puts on the
  timeline.
\<close>

theorem evaluation_penalty_shape:
  "length (ev_penalties (evaluateDrink d w)) \<le> 1
   \<and> (category d = ON_THE_ROCKS \<longrightarrow>
        length (ev_penalties (evaluateDrink d w)) = 1
        \<and> ev_tempC (evaluateDrink d w) = startTempC d)
   \<and> ((ev_dilution (evaluateDrink d w) \<noteq> None) = (category d = ON_THE_ROCKS))
   \<and> (\<forall>f \<in> set (finished (simulateFinish ds)). finishedShape f)
   \<and> ((\<forall>f \<in> set (timeline s). finishedShape f) \<longrightarrow>
        (\<forall>f \<in> set (timeline (finishById i s)). finishedShape f))"
  using evaluateDrink_shape [of d w] simulateFinish_shape [of ds] finishById_shape [of s i]
  by blast

theorem evaluation_penalty_shape_witness:
  "category (generateOrders ! 2) = ON_THE_ROCKS
   \<and> length (ev_penalties (evaluateDrink (generateOrders ! 2) 60)) = 1
   \<and> ev_tempC (evaluateDrink (generateOrders ! 2) 60) = 0
   \<and> ev_dilution (evaluateDrink (generateOrders ! 2) 60) \<noteq> None
   \<and> finished (simulateFinish [generateOrders ! 2, generateOrders ! 3]) \<noteq> []
   \<and> finishedShape (finished (simulateFinish [generateOrders ! 2, generateOrders ! 3]) ! 1)
   \<and> set (timeline
         \<lparr>phase = RUNNING, orders = generateOrders, queue = recommendedOrder, clock = 0,
          remaining = [generateOrders ! 2, generateOrders ! 3], timeline = [],
          result = None\<rparr>) = {}
   \<and> finishedShape (last (timeline (finishById ''4''
         \<lparr>phase = RUNNING, orders = generateOrders, queue = recommendedOrder, clock = 0,
          remaining = [generateOrders ! 2, generateOrders ! 3], timeline = [],
          result = None\<rparr>)))"
  using evaluation_penalty_shape
      [of "generateOrders ! 2" 60 "[generateOrders ! 2, generateOrders ! 3]"
          "\<lparr>phase = RUNNING, orders = generateOrders, queue = recommendedOrder, clock = 0,
            remaining = [generateOrders ! 2, generateOrders ! 3], timeline = [],
            result = None\<rparr>" "''4''"]
  by (simp add: simulate_two_on_the_rocks)
     (simp add: generateOrders_def finishById_def Let_def)

subsection \<open>Queue builder\<close>

text \<open>
  Claim C7. For a queue without duplicates, \<open>sortByFinishQueue\<close> is a stable sort of its
  input list of drinks: the result is a permutation of the input, ordered by the position
  of the drink's category in the queue first (a category that is not in the queue has
  priority 99, which is after every position of the queue) and by the finish duration,
  ascending, second; drinks with the same priority and the same finish duration, and in
  particular drinks with the same category and the same finish duration, keep the relative
  order they have in the input.
\<close>

theorem sortByFinishQueue_stable_sort:
  assumes "distinct q"
  shows "mset (sortByFinishQueue ds q) = mset ds
     \<and> sorted_wrt (finishKeyLe q) (sortByFinishQueue ds q)
     \<and> (\<forall>p t. filter (\<lambda>d. queuePosition q (category d) = p \<and> baseFinishSec d = t)
                   (sortByFinishQueue ds q)
               = filter (\<lambda>d. queuePosition q (category d) = p \<and> baseFinishSec d = t) ds)
     \<and> (\<forall>c t. filter (\<lambda>d. category d = c \<and> baseFinishSec d = t) (sortByFinishQueue ds q)
               = filter (\<lambda>d. category d = c \<and> baseFinishSec d = t) ds)
     \<and> (\<forall>c \<in> set q. queuePosition q c < length q \<and> q ! queuePosition q c = c
                       \<and> queuePosition q c < 99)
     \<and> (\<forall>c. c \<notin> set q \<longrightarrow> queuePosition q c = 99)"
proof -
  let ?cmp = "finishQueueCmp (Map_of_entries (indexed q))"
  have res: "sortByFinishQueue ds q = sortBy ?cmp ds"
    by (simp add: sortByFinishQueue_def)
  have perm: "mset (sortByFinishQueue ds q) = mset ds"
    by (simp add: res mset_sortBy)
  have sorted: "sorted_wrt (finishKeyLe q) (sortByFinishQueue ds q)"
    unfolding res
    by (rule sorted_sortBy [OF finishQueueCmp_le [OF assms] finishKeyLe_total finishKeyLe_trans])
  have stable_key:
    "filter (\<lambda>d. queuePosition q (category d) = p \<and> baseFinishSec d = t) (sortByFinishQueue ds q)
       = filter (\<lambda>d. queuePosition q (category d) = p \<and> baseFinishSec d = t) ds" for p t
    unfolding res
    by (rule filter_sortBy) (simp add: finishQueueCmp_def orderIndex_distinct [OF assms])
  have stable_cat:
    "filter (\<lambda>d. category d = c \<and> baseFinishSec d = t) (sortByFinishQueue ds q)
       = filter (\<lambda>d. category d = c \<and> baseFinishSec d = t) ds" for c t
    unfolding res
    by (rule filter_sortBy) (simp add: finishQueueCmp_def)
  have present: "\<forall>c \<in> set q. queuePosition q c < length q \<and> q ! queuePosition q c = c
                       \<and> queuePosition q c < 99"
    using queuePosition_present [OF assms] by blast
  have absent: "\<forall>c. c \<notin> set q \<longrightarrow> queuePosition q c = 99"
    using queuePosition_absent by blast
  from perm sorted stable_key stable_cat present absent show ?thesis by blast
qed

text \<open>
  The catalog in the recommended order: the Whiskey Highball and the Gin and Tonic, both on
  the rocks and 8 seconds, stay in catalog order.
\<close>

theorem sortByFinishQueue_stable_sort_witness:
  "distinct recommendedOrder
   \<and> mset (sortByFinishQueue generateOrders recommendedOrder) = mset generateOrders
   \<and> sorted_wrt (finishKeyLe recommendedOrder) (sortByFinishQueue generateOrders recommendedOrder)
   \<and> filter (\<lambda>d. category d = ON_THE_ROCKS \<and> baseFinishSec d = 8)
        (sortByFinishQueue generateOrders recommendedOrder)
       = [generateOrders ! 3, generateOrders ! 4]
   \<and> queuePosition recommendedOrder STRAIGHT_UP = 2
   \<and> queuePosition [NON_CHILLED] STRAIGHT_UP = 99"
proof -
  have a: "distinct recommendedOrder" by (simp add: recommendedOrder_def)
  have b: "distinct [NON_CHILLED]" by simp
  have c: "filter (\<lambda>d. category d = ON_THE_ROCKS \<and> baseFinishSec d = 8) generateOrders
       = [generateOrders ! 3, generateOrders ! 4]"
    by (simp add: generateOrders_def)
  have d: "queuePosition recommendedOrder STRAIGHT_UP = 2"
    by (simp add: queuePosition_def recommendedOrder_def nullish_def)
  show ?thesis
    using a c d sortByFinishQueue_stable_sort [OF a, of generateOrders]
      sortByFinishQueue_stable_sort [OF b, of generateOrders]
    by simp
qed

text \<open>
  Remark. The queue of the application never holds a category twice
  (\<open>toggleCategory_distinct\<close>). For a queue that does, the index map keeps the last
  position of the category, so that a drink on the rocks comes before a non-chilled one
  below.
\<close>

lemma sortByFinishQueue_duplicated_queue:
  "map drink_id (sortByFinishQueue [generateOrders ! 5, generateOrders ! 2]
                   [NON_CHILLED, ON_THE_ROCKS, NON_CHILLED]) = [''3'', ''6'']"
  by (simp add: sortByFinishQueue_def generateOrders_def
      Map_of_entries_def indexed_def finishQueueCmp_def nullish_def upt_rec)

end
